theory Spec2Isabelle
  imports Complex_Main "HOL-Library.FSet"
begin

section \<open>Data model of \<open>server/api/scrape-links.post.ts\<close>\<close>

text \<open>
  The request body as the handler reads it. The TypeScript interface declares
  \<open>urls: string[]\<close>, but the handler checks the field at run time, so the
  model keeps the three shapes the check distinguishes: the field is absent, it
  holds a value that is not an array, or it holds an array of strings.
  \<open>maxUrls\<close> and \<open>rateLimit\<close> are numbers that the handler never validates:
  they may be negative and need not be whole.
\<close>

datatype urls_field = UrlsMissing | UrlsNotArray | UrlsArray "string list"

record ScrapeLinksRequest =
  urls :: urls_field
  recursive :: bool
  maxUrls :: real
  maxDepth :: int
  rateLimit :: real
  sameDomainOnly :: bool

datatype link_type = internal | external

record LinkResult =
  sourceUrl :: string
  targetUrl :: string
  status :: int
  redirectChain :: string
  type :: link_type
  anchorText :: string
  rel :: string
  depth :: int
  error :: "string option"

text \<open>
  An entry of \<open>queue\<close>: \<open>{ url, depth, sourceUrl? }\<close>. The optional field is
  \<open>None\<close> when the object literal leaves it out.
\<close>

record QueueItem =
  q_url :: string
  q_depth :: int
  q_sourceUrl :: "string option"

text \<open>
  The records that \<open>extractLinks\<close> and \<open>getRedirectChain\<close> return, with the
  fields the handler reads from them.
\<close>

record DiscoveredLink =
  l_targetUrl :: string
  l_anchorText :: string
  l_rel :: "string list"
  l_isInternal :: bool

record RedirectHop =
  hop_url :: string
  hop_status :: int

record RedirectInfo =
  finalStatus :: int
  chain :: "RedirectHop list"
  r_error :: "string option"

text \<open>
  A thrown JavaScript value: an \<open>Error\<close> object with its message, or anything
  else. The \<open>catch\<close> block tells the two apart with \<open>instanceof Error\<close>.
\<close>

datatype thrown = ErrorObj string | NonError

fun thrown_message :: "thrown \<Rightarrow> string" where
  "thrown_message (ErrorObj m) = m"
| "thrown_message NonError = ''Unknown error''"

text \<open>
  What the handler calls but does not define. The functions of
  \<open>../utils/link-analyzer\<close> and of the platform are parameters of the model;
  \<open>'w\<close> is the state of the outside world (network, clock), threaded through
  every call that performs I/O.
  \<^item> \<open>normalizeUrl\<close>: the canonical URL, or \<open>None\<close> for \<open>null\<close>;
  \<^item> \<open>url_hostname\<close>: \<open>new URL(u).hostname\<close>, \<open>None\<close> when the constructor throws;
  \<^item> \<open>fetch_text\<close>: \<open>fetch(url, ...)\<close> followed by \<open>response.text()\<close>; either may throw;
  \<^item> \<open>extractLinks\<close>: the links of a page, given its markup and URL;
  \<^item> \<open>getRedirectChain\<close>: the redirect resolver;
  \<^item> \<open>formatRedirectChain\<close>: the textual form of a chain;
  \<^item> \<open>sleep\<close>: \<open>setTimeout\<close> for the given number of milliseconds
    (\<open>None\<close> when the number is not finite).
\<close>

record 'w link_env =
  normalizeUrl :: "string \<Rightarrow> string option"
  url_hostname :: "string \<Rightarrow> string option"
  fetch_text :: "'w \<Rightarrow> string \<Rightarrow> (thrown + string) \<times> 'w"
  extractLinks :: "string \<Rightarrow> string \<Rightarrow> thrown + DiscoveredLink list"
  getRedirectChain :: "'w \<Rightarrow> string \<Rightarrow> (thrown + RedirectInfo) \<times> 'w"
  formatRedirectChain :: "RedirectHop list \<Rightarrow> string"
  sleep :: "real option \<Rightarrow> 'w \<Rightarrow> 'w"

text \<open>The mutable variables of one handler invocation, and the world.\<close>

record 'w crawl_state =
  results :: "LinkResult list"
  visited :: "string fset"
  queue :: "QueueItem list"
  world :: "'w"

record crawl_stats =
  totalLinks :: nat
  visitedCount :: nat
  remaining :: nat

record crawl_response =
  resp_results :: "LinkResult list"
  stats :: crawl_stats

text \<open>
  How the handler ends when it does not return: with the error it creates itself
  (\<open>createError\<close> with a status code), or with a value thrown outside every
  \<open>try\<close>.
\<close>

datatype handler_error = HttpError int string | Uncaught thrown

section \<open>The handler\<close>

text \<open>\<open>Array.prototype.join\<close> on strings.\<close>

fun join :: "string \<Rightarrow> string list \<Rightarrow> string" where
  "join sep [] = []"
| "join sep [x] = x"
| "join sep (x # y # ys) = x @ sep @ join sep (y # ys)"

text \<open>
  The seeding loop (lines 44 to 50). \<open>normalized && ...\<close> is false for \<open>null\<close>
  and for the empty string.
\<close>

fun seed_urls :: "'w link_env \<Rightarrow> string list \<Rightarrow> 'w crawl_state \<Rightarrow> 'w crawl_state" where
  "seed_urls env [] s = s"
| "seed_urls env (url # us) s =
     (case normalizeUrl env url of
        None \<Rightarrow> seed_urls env us s
      | Some normalized \<Rightarrow>
          if normalized \<noteq> [] \<and> normalized |\<notin>| visited s
          then seed_urls env us
                 (s\<lparr>queue := queue s @ [\<lparr>q_url = normalized, q_depth = 0, q_sourceUrl = None\<rparr>],
                    visited := finsert normalized (visited s)\<rparr>)
          else seed_urls env us s)"

definition seed_state :: "'w link_env \<Rightarrow> string list \<Rightarrow> 'w \<Rightarrow> 'w crawl_state" where
  "seed_state env us w =
     seed_urls env us \<lparr>results = [], visited = {||}, queue = [], world = w\<rparr>"

text \<open>
  \<open>baseDomains\<close> (lines 53 to 61): the hostname of every seed that parses,
  \<open>null\<close> otherwise, then \<open>filter(Boolean)\<close>, which drops \<open>null\<close> and the
  empty hostname.
\<close>

fun truthy :: "string option \<Rightarrow> bool" where
  "truthy None = False"
| "truthy (Some h) = (h \<noteq> [])"

definition baseDomains :: "'w link_env \<Rightarrow> string list \<Rightarrow> string fset" where
  "baseDomains env us = fset_of_list (map the (filter truthy (map (url_hostname env) us)))"

text \<open>
  \<open>delayMs = 1000 / body.rateLimit\<close>. Division by zero gives a number that is
  not finite in JavaScript, written \<open>None\<close> here.
\<close>

definition delayMs :: "ScrapeLinksRequest \<Rightarrow> real option" where
  "delayMs req = (if rateLimit req = 0 then None else Some (1000 / rateLimit req))"

definition half :: "real option \<Rightarrow> real option" where
  "half d = map_option (\<lambda>x. x / 2) d"

text \<open>The \<open>LinkResult\<close> of lines 92 to 102.\<close>

definition link_result ::
  "'w link_env \<Rightarrow> QueueItem \<Rightarrow> DiscoveredLink \<Rightarrow> RedirectInfo \<Rightarrow> LinkResult" where
  "link_result env item link redirectInfo =
     \<lparr>sourceUrl = q_url item,
      targetUrl = l_targetUrl link,
      status = finalStatus redirectInfo,
      redirectChain = formatRedirectChain env (chain redirectInfo),
      type = (if l_isInternal link then internal else external),
      anchorText = l_anchorText link,
      rel = join '', '' (l_rel link),
      depth = q_depth item,
      error = r_error redirectInfo\<rparr>"

text \<open>
  The \<open>LinkResult\<close> of the \<open>catch\<close> block (lines 124 to 134).
  \<open>item.sourceUrl || item.url\<close> takes the URL when the field is absent or empty.
\<close>

definition failure_result :: "QueueItem \<Rightarrow> thrown \<Rightarrow> LinkResult" where
  "failure_result item e =
     \<lparr>sourceUrl = (case q_sourceUrl item of
                     None \<Rightarrow> q_url item
                   | Some src \<Rightarrow> if src = [] then q_url item else src),
      targetUrl = q_url item,
      status = 0,
      redirectChain = [],
      type = internal,
      anchorText = [],
      rel = [],
      depth = q_depth item,
      error = Some (thrown_message e)\<rparr>"

text \<open>
  The condition of lines 107 to 110, read before the hostname of the target is
  computed.
\<close>

definition wants_enqueue ::
  "ScrapeLinksRequest \<Rightarrow> QueueItem \<Rightarrow> DiscoveredLink \<Rightarrow> 'w crawl_state \<Rightarrow> bool" where
  "wants_enqueue req item link s \<longleftrightarrow>
     recursive req \<and> l_isInternal link \<and> q_depth item < maxDepth req
     \<and> l_targetUrl link |\<notin>| visited s"

text \<open>
  One pass through the body of the \<open>for\<close> loop after the cap check (lines 90 to
  121). The first component is the value thrown, if any; the state is the one
  the \<open>catch\<close> block then sees.
\<close>

definition process_link ::
  "'w link_env \<Rightarrow> ScrapeLinksRequest \<Rightarrow> string fset \<Rightarrow> QueueItem \<Rightarrow> DiscoveredLink
     \<Rightarrow> 'w crawl_state \<Rightarrow> thrown option \<times> 'w crawl_state" where
  "process_link env req bd item link s =
     (case getRedirectChain env (world s) (l_targetUrl link) of
        (Inl e, w1) \<Rightarrow> (Some e, s\<lparr>world := w1\<rparr>)
      | (Inr redirectInfo, w1) \<Rightarrow>
          let s1 = s\<lparr>world := w1,
                     results := results s @ [link_result env item link redirectInfo]\<rparr>
          in if wants_enqueue req item link s1
             then (case url_hostname env (l_targetUrl link) of
                     None \<Rightarrow> (Some (ErrorObj ''Invalid URL''), s1)
                   | Some targetDomain \<Rightarrow>
                       if \<not> sameDomainOnly req \<or> targetDomain |\<in>| bd
                       then (None,
                             s1\<lparr>visited := finsert (l_targetUrl link) (visited s1),
                                queue := queue s1 @
                                  [\<lparr>q_url = l_targetUrl link, q_depth = q_depth item + 1,
                                    q_sourceUrl = None\<rparr>],
                                world := sleep env (half (delayMs req)) (world s1)\<rparr>)
                       else (None, s1\<lparr>world := sleep env (half (delayMs req)) (world s1)\<rparr>))
             else (None, s1\<lparr>world := sleep env (half (delayMs req)) (world s1)\<rparr>))"

text \<open>The \<open>for\<close> loop of lines 86 to 122, with its \<open>break\<close> at the cap.\<close>

fun process_links ::
  "'w link_env \<Rightarrow> ScrapeLinksRequest \<Rightarrow> string fset \<Rightarrow> QueueItem \<Rightarrow> DiscoveredLink list
     \<Rightarrow> 'w crawl_state \<Rightarrow> thrown option \<times> 'w crawl_state" where
  "process_links env req bd item [] s = (None, s)"
| "process_links env req bd item (link # links) s =
     (if real (length (results s)) \<ge> maxUrls req then (None, s)
      else (case process_link env req bd item link s of
              (Some e, s') \<Rightarrow> (Some e, s')
            | (None, s') \<Rightarrow> process_links env req bd item links s'))"

text \<open>
  The pause of lines 70 to 72, before a page is fetched: the full interval, but
  only when a result has been recorded already.
\<close>

definition pre_fetch :: "'w link_env \<Rightarrow> ScrapeLinksRequest \<Rightarrow> 'w crawl_state \<Rightarrow> 'w crawl_state" where
  "pre_fetch env req s =
     (if length (results s) > 0 then s\<lparr>world := sleep env (delayMs req) (world s)\<rparr> else s)"

text \<open>The \<open>try\<close> block of lines 68 to 122 for the item taken from the queue.\<close>

definition try_body ::
  "'w link_env \<Rightarrow> ScrapeLinksRequest \<Rightarrow> string fset \<Rightarrow> QueueItem
     \<Rightarrow> 'w crawl_state \<Rightarrow> thrown option \<times> 'w crawl_state" where
  "try_body env req bd item s =
     (let s0 = pre_fetch env req s
      in case fetch_text env (world s0) (q_url item) of
           (Inl e, w1) \<Rightarrow> (Some e, s0\<lparr>world := w1\<rparr>)
         | (Inr html, w1) \<Rightarrow>
             (case extractLinks env html (q_url item) of
                Inl e \<Rightarrow> (Some e, s0\<lparr>world := w1\<rparr>)
              | Inr links \<Rightarrow> process_links env req bd item links (s0\<lparr>world := w1\<rparr>)))"

text \<open>
  One iteration of the \<open>while\<close> loop (lines 66 to 135): \<open>queue.shift()\<close>, the
  \<open>try\<close> block, and the \<open>catch\<close> block when something was thrown. It is only
  run on a non-empty queue.
\<close>

definition crawl_step ::
  "'w link_env \<Rightarrow> ScrapeLinksRequest \<Rightarrow> string fset \<Rightarrow> 'w crawl_state \<Rightarrow> 'w crawl_state" where
  "crawl_step env req bd s =
     (case queue s of
        [] \<Rightarrow> s
      | item # rest \<Rightarrow>
          (case try_body env req bd item (s\<lparr>queue := rest\<rparr>) of
             (None, s') \<Rightarrow> s'
           | (Some e, s') \<Rightarrow> s'\<lparr>results := results s' @ [failure_result item e]\<rparr>))"

text \<open>The condition of the \<open>while\<close> loop (line 65).\<close>

definition loop_cond :: "ScrapeLinksRequest \<Rightarrow> 'w crawl_state \<Rightarrow> bool" where
  "loop_cond req s \<longleftrightarrow> length (queue s) > 0 \<and> real (length (results s)) < maxUrls req"

text \<open>
  The \<open>while\<close> loop of lines 65 to 136. It terminates because an iteration
  either appends a result, which brings the result count closer to the cap, or
  leaves the results alone and only shortens the queue.
\<close>

function crawl_loop ::
  "'w link_env \<Rightarrow> ScrapeLinksRequest \<Rightarrow> string fset \<Rightarrow> 'w crawl_state \<Rightarrow> 'w crawl_state" where
  "crawl_loop env req bd s =
     (if loop_cond req s then crawl_loop env req bd (crawl_step env req bd s) else s)"
  by pat_completeness auto

text \<open>
  The state after at most \<open>n\<close> iterations of the same loop: the states the
  crawl passes through are \<open>crawl_iter env req bd n s\<close> for \<open>n = 0, 1, ...\<close>.
\<close>

fun crawl_iter ::
  "'w link_env \<Rightarrow> ScrapeLinksRequest \<Rightarrow> string fset \<Rightarrow> nat \<Rightarrow> 'w crawl_state
     \<Rightarrow> 'w crawl_state" where
  "crawl_iter env req bd 0 s = s"
| "crawl_iter env req bd (Suc n) s =
     (if loop_cond req s then crawl_iter env req bd n (crawl_step env req bd s) else s)"

text \<open>
  The handler (lines 29 to 146). \<open>readBody\<close> yields \<open>None\<close> when the request
  has no body or the body is the JSON value \<open>null\<close>; reading \<open>body.urls\<close> then
  throws a \<open>TypeError\<close> outside every \<open>try\<close>.
\<close>

definition handler ::
  "'w link_env \<Rightarrow> 'w \<Rightarrow> ScrapeLinksRequest option \<Rightarrow> handler_error + crawl_response" where
  "handler env w body =
     (case body of
        None \<Rightarrow> Inl (Uncaught (ErrorObj ''TypeError''))
      | Some req \<Rightarrow>
          (case urls req of
             UrlsArray us \<Rightarrow>
               (let s = crawl_loop env req (baseDomains env us) (seed_state env us w)
                in Inr \<lparr>resp_results = results s,
                        stats = \<lparr>totalLinks = length (results s),
                                 visitedCount = fcard (visited s),
                                 remaining = length (queue s)\<rparr>\<rparr>)
           | _ \<Rightarrow> Inl (HttpError 400 ''urls array required'')))"

section \<open>What the handler relies on\<close>

text \<open>
  Modelled from the spec: \<open>extractLinks\<close> of \<open>../utils/link-analyzer\<close> is not
  among the sources. The specification has it normalise every anchor to an
  absolute URL and skip the anchors that fail to normalise, so that
  \<open>new URL(link.targetUrl)\<close> on line 113 finds a URL it can parse.
\<close>

definition links_parseable :: "'w link_env \<Rightarrow> bool" where
  "links_parseable env \<longleftrightarrow>
     (\<forall>html url links. extractLinks env html url = Inr links \<longrightarrow>
        (\<forall>link \<in> set links. url_hostname env (l_targetUrl link) \<noteq> None))"

section \<open>Properties of a crawl state\<close>

text \<open>
  A frontier item is on the seed hostnames when it is one of the seed items or
  the hostname of its URL is in \<open>baseDomains\<close>.
\<close>

definition on_seed_hosts :: "'w link_env \<Rightarrow> string fset \<Rightarrow> QueueItem list \<Rightarrow> QueueItem \<Rightarrow> bool" where
  "on_seed_hosts env bd seeds q \<longleftrightarrow>
     q \<in> set seeds
     \<or> (case url_hostname env (q_url q) of None \<Rightarrow> False | Some h \<Rightarrow> h |\<in>| bd)"

text \<open>
  The frontier holds no URL twice, and holds only URLs of the visited set.
\<close>

definition frontier_ok :: "'w crawl_state \<Rightarrow> bool" where
  "frontier_ok s \<longleftrightarrow>
     distinct (map q_url (queue s)) \<and> (\<forall>q \<in> set (queue s). q_url q |\<in>| visited s)"

text \<open>
  Breadth-first order between two iterations: results and frontier are sorted by
  depth, no result is deeper than a frontier item, and the frontier spans at
  most two depths. While the item of depth \<open>d\<close> is expanded, the results are at
  depth \<open>d\<close> at most and the frontier is at depth \<open>d\<close> or \<open>d + 1\<close>.
\<close>

definition bfs_ok :: "'w crawl_state \<Rightarrow> bool" where
  "bfs_ok s \<longleftrightarrow>
     sorted (map depth (results s)) \<and> sorted (map q_depth (queue s))
     \<and> (\<forall>r \<in> set (results s). \<forall>q \<in> set (queue s). depth r \<le> q_depth q)
     \<and> (\<forall>q \<in> set (queue s). \<forall>q' \<in> set (queue s). q_depth q' \<le> q_depth q + 1)"

definition bfs_mid :: "int \<Rightarrow> 'w crawl_state \<Rightarrow> bool" where
  "bfs_mid d s \<longleftrightarrow>
     sorted (map depth (results s)) \<and> sorted (map q_depth (queue s))
     \<and> (\<forall>r \<in> set (results s). depth r \<le> d)
     \<and> (\<forall>q \<in> set (queue s). d \<le> q_depth q \<and> q_depth q \<le> d + 1)"

section \<open>A world with a clock\<close>

text \<open>
  \<open>now\<close> is the time in milliseconds, \<open>sent\<close> the times at which outbound
  requests were issued, oldest first. Requests take no time; only \<open>sleep\<close>
  moves the clock.
\<close>

record clock_world =
  now :: real
  sent :: "real list"

text \<open>
  How far a \<open>sleep\<close> moves the clock: by the delay asked for; a timer with a
  negative or non-finite delay fires as soon as it can, which the clock counts
  as no time.
\<close>

definition pause :: "real option \<Rightarrow> real" where
  "pause d = (case d of None \<Rightarrow> 0 | Some x \<Rightarrow> max 0 x)"

definition w0 :: clock_world where
  "w0 = \<lparr>now = 0, sent = []\<rparr>"

definition issue :: "clock_world \<Rightarrow> clock_world" where
  "issue w = w\<lparr>sent := sent w @ [now w]\<rparr>"

text \<open>
  An environment keeps time like this when \<open>sleep\<close> moves the clock by the
  pause and every page fetch and every link check is one request, stamped with
  the time at which it is issued.
\<close>

definition clock_like :: "clock_world link_env \<Rightarrow> bool" where
  "clock_like env \<longleftrightarrow>
     (\<forall>d w. sleep env d w = w\<lparr>now := now w + pause d\<rparr>)
     \<and> (\<forall>w u. snd (fetch_text env w u) = issue w)
     \<and> (\<forall>w u. snd (getRedirectChain env w u) = issue w)"

text \<open>Every two consecutive times of a list are at least \<open>d\<close> apart.\<close>

fun spaced :: "real \<Rightarrow> real list \<Rightarrow> bool" where
  "spaced d [] = True"
| "spaced d [t] = True"
| "spaced d (t # u # ts) = (d \<le> u - t \<and> spaced d (u # ts))"

section \<open>A small site to run the handler on\<close>

definition ok_info :: RedirectInfo where
  "ok_info = \<lparr>finalStatus = 200, chain = [], r_error = None\<rparr>"

definition plain_link :: "string \<Rightarrow> bool \<Rightarrow> DiscoveredLink" where
  "plain_link u i = \<lparr>l_targetUrl = u, l_anchorText = ''t'', l_rel = [], l_isInternal = i\<rparr>"

text \<open>
  Three pages: \<open>http://a/\<close> links to \<open>http://a/b\<close> and to \<open>http://x/\<close>,
  \<open>http://a/b\<close> links back to \<open>http://a/\<close> and on to \<open>http://a/c\<close>, whose
  fetch fails. Every link check answers 200.
\<close>

definition demo_env :: "clock_world link_env" where
  "demo_env =
     \<lparr>normalizeUrl = (\<lambda>u. if u \<in> {''http://a/'', ''http://a/b'', ''http://a/c'', ''http://x/''}
                           then Some u else None),
      url_hostname = (\<lambda>u. if u \<in> {''http://a/'', ''http://a/b'', ''http://a/c''} then Some ''a''
                           else if u = ''http://x/'' then Some ''x'' else None),
      fetch_text = (\<lambda>w u. (if u = ''http://a/'' then Inr ''A''
                            else if u = ''http://a/b'' then Inr ''B''
                            else Inl (ErrorObj ''fetch failed''), issue w)),
      extractLinks = (\<lambda>html u.
         if html = ''A'' then Inr [plain_link ''http://a/b'' True, plain_link ''http://x/'' False]
         else if html = ''B'' then Inr [plain_link ''http://a/'' True, plain_link ''http://a/c'' True]
         else Inr []),
      getRedirectChain = (\<lambda>w u. (Inr ok_info, issue w)),
      formatRedirectChain = (\<lambda>c. []),
      sleep = (\<lambda>d w. w\<lparr>now := now w + pause d\<rparr>)\<rparr>"

definition demo_req :: ScrapeLinksRequest where
  "demo_req = \<lparr>urls = UrlsArray [''http://a/''], recursive = True, maxUrls = 10,
               maxDepth = 3, rateLimit = 2, sameDomainOnly = True\<rparr>"

text \<open>
  The same request with a cap of two results, with a negative cap, and with a
  cap of one and a half.
\<close>

definition capped_req :: ScrapeLinksRequest where
  "capped_req = demo_req\<lparr>maxUrls := 2\<rparr>"

definition neg_req :: ScrapeLinksRequest where
  "neg_req = demo_req\<lparr>maxUrls := - 1\<rparr>"

definition frac_req :: ScrapeLinksRequest where
  "frac_req = demo_req\<lparr>maxUrls := 3 / 2\<rparr>"

definition neg_resp :: crawl_response where
  "neg_resp = \<lparr>resp_results = [],
               stats = \<lparr>totalLinks = 0, visitedCount = 1, remaining = 1\<rparr>\<rparr>"

text \<open>The same request without recursive expansion.\<close>

definition flat_req :: ScrapeLinksRequest where
  "flat_req = demo_req\<lparr>recursive := False\<rparr>"

text \<open>The state after seeding, the seed item, and the first link of the seed page.\<close>

definition demo_seed :: "clock_world crawl_state" where
  "demo_seed = seed_state demo_env [''http://a/''] w0"

definition demo_item :: QueueItem where
  "demo_item = \<lparr>q_url = ''http://a/'', q_depth = 0, q_sourceUrl = None\<rparr>"

definition demo_link :: DiscoveredLink where
  "demo_link = plain_link ''http://a/b'' True"

text \<open>The state after that link has been handled, the seed item being taken.\<close>

definition demo_after_link :: "clock_world crawl_state" where
  "demo_after_link =
     \<lparr>results = [link_result demo_env demo_item demo_link ok_info],
      visited = {|''http://a/b'', ''http://a/''|},
      queue = [\<lparr>q_url = ''http://a/b'', q_depth = 1, q_sourceUrl = None\<rparr>],
      world = \<lparr>now = 250, sent = [0]\<rparr>\<rparr>"

text \<open>
  The scenario of the specification: the page \<open>https://a.test/\<close> links to
  \<open>https://a.test/b\<close>, which redirects with 301 to \<open>https://a.test/c\<close>, which
  answers 200.
\<close>

definition redirect_info :: RedirectInfo where
  "redirect_info =
     \<lparr>finalStatus = 200,
      chain = [\<lparr>hop_url = ''https://a.test/b'', hop_status = 301\<rparr>,
               \<lparr>hop_url = ''https://a.test/c'', hop_status = 200\<rparr>],
      r_error = None\<rparr>"

definition redirect_env :: "clock_world link_env" where
  "redirect_env = demo_env\<lparr>getRedirectChain := (\<lambda>w u. (Inr redirect_info, issue w)),
                            url_hostname := (\<lambda>u. Some ''a.test'')\<rparr>"

definition redirect_item :: QueueItem where
  "redirect_item = \<lparr>q_url = ''https://a.test/'', q_depth = 0, q_sourceUrl = None\<rparr>"

definition redirect_link :: DiscoveredLink where
  "redirect_link = plain_link ''https://a.test/b'' True"

definition redirect_state :: "clock_world crawl_state" where
  "redirect_state = \<lparr>results = [], visited = {|''https://a.test/''|}, queue = [], world = w0\<rparr>"

text \<open>
  A state in which the page \<open>http://a/c\<close>, whose fetch fails, is next in the
  frontier, one result being recorded.
\<close>

definition failing_item :: QueueItem where
  "failing_item = \<lparr>q_url = ''http://a/c'', q_depth = 2, q_sourceUrl = None\<rparr>"

definition failing_state :: "clock_world crawl_state" where
  "failing_state =
     \<lparr>results = [link_result demo_env demo_item demo_link ok_info],
      visited = {|''http://a/c'', ''http://a/b'', ''http://a/''|},
      queue = [failing_item],
      world = w0\<rparr>"

section \<open>Termination of the crawl loop\<close>

lemma process_link_results:
  "process_link env req bd item link s = (e, s') \<Longrightarrow>
     (e = None \<longrightarrow> length (results s') = Suc (length (results s)))
     \<and> length (results s) \<le> length (results s')"
  by (auto simp: process_link_def Let_def split: prod.splits sum.splits option.splits if_splits)

lemma process_links_results:
  "process_links env req bd item links s = (e, s') \<Longrightarrow>
     length (results s) \<le> length (results s')
     \<and> (e = None \<longrightarrow> length (results s') = length (results s) \<longrightarrow> queue s' = queue s)"
proof (induction links arbitrary: s)
  case Nil
  then show ?case by simp
next
  case (Cons link links)
  show ?case
  proof (cases "real (length (results s)) \<ge> maxUrls req")
    case True
    with Cons.prems show ?thesis by simp
  next
    case False
    obtain e1 s1 where p: "process_link env req bd item link s = (e1, s1)"
      by (cases "process_link env req bd item link s")
    note r = process_link_results [OF p]
    show ?thesis
    proof (cases e1)
      case None
      with Cons.prems False p have "process_links env req bd item links s1 = (e, s')"
        by simp
      from Cons.IH [OF this] r None show ?thesis by auto
    next
      case (Some x)
      with Cons.prems False p r show ?thesis by auto
    qed
  qed
qed

lemma try_body_results:
  "try_body env req bd item s = (e, s') \<Longrightarrow>
     length (results s) \<le> length (results s')
     \<and> (e = None \<longrightarrow> length (results s') = length (results s) \<longrightarrow> queue s' = queue s)"
  by (auto simp: try_body_def pre_fetch_def Let_def split: prod.splits sum.splits if_splits
           dest!: process_links_results)

lemma crawl_step_progress:
  assumes "queue s \<noteq> []"
  shows "length (results s) < length (results (crawl_step env req bd s))
         \<or> (length (results (crawl_step env req bd s)) = length (results s)
            \<and> length (queue (crawl_step env req bd s)) < length (queue s))"
proof -
  from assms obtain item rest where q: "queue s = item # rest"
    by (cases "queue s") auto
  obtain e s' where t: "try_body env req bd item (s\<lparr>queue := rest\<rparr>) = (e, s')"
    by (cases "try_body env req bd item (s\<lparr>queue := rest\<rparr>)")
  from try_body_results [OF t] q t show ?thesis
    by (cases e) (auto simp: crawl_step_def)
qed

termination crawl_loop
proof (relation "inv_image (less_than <*lex*> less_than)
    (\<lambda>(env, req, bd, s). (nat (\<lceil>maxUrls req\<rceil> - int (length (results s))), length (queue s)))")
  show "wf (inv_image (less_than <*lex*> less_than)
    (\<lambda>(env :: 'a link_env, req, bd :: string fset, s :: 'a crawl_state).
       (nat (\<lceil>maxUrls req\<rceil> - int (length (results s))), length (queue s))))"
    by (intro wf_inv_image wf_lex_prod wf_less_than)
next
  fix env :: "'a link_env" and req and bd :: "string fset" and s :: "'a crawl_state"
  assume c: "loop_cond req s"
  then have "queue s \<noteq> []" by (simp add: loop_cond_def)
  from c have "int (length (results s)) < \<lceil>maxUrls req\<rceil>"
    by (simp add: loop_cond_def less_ceiling_iff)
  with crawl_step_progress [OF \<open>queue s \<noteq> []\<close>, of env req bd]
  show "((env, req, bd, crawl_step env req bd s), env, req, bd, s)
        \<in> inv_image (less_than <*lex*> less_than)
            (\<lambda>(env, req, bd, s). (nat (\<lceil>maxUrls req\<rceil> - int (length (results s))), length (queue s)))"
    by (auto simp: loop_cond_def)
qed

section \<open>The loop as an iteration of its body\<close>

declare crawl_loop.simps [simp del]

lemma crawl_iter_inv:
  assumes "P s"
    and "\<And>t. P t \<Longrightarrow> loop_cond req t \<Longrightarrow> P (crawl_step env req bd t)"
  shows "P (crawl_iter env req bd n s)"
  using assms(1)
proof (induction n arbitrary: s)
  case 0
  then show ?case by simp
next
  case (Suc n)
  then show ?case by (simp add: assms(2))
qed

lemma crawl_loop_is_iter: "\<exists>n. crawl_loop env req bd s = crawl_iter env req bd n s"
proof (induction env req bd s rule: crawl_loop.induct)
  case (1 env req bd s)
  show ?case
  proof (cases "loop_cond req s")
    case True
    from 1 [OF True] obtain n
      where "crawl_loop env req bd (crawl_step env req bd s) = crawl_iter env req bd n (crawl_step env req bd s)"
      by blast
    with True have "crawl_loop env req bd s = crawl_iter env req bd (Suc n) s"
      by (simp add: crawl_loop.simps [of env req bd s])
    then show ?thesis by blast
  next
    case False
    then have "crawl_loop env req bd s = crawl_iter env req bd 0 s"
      by (simp add: crawl_loop.simps [of env req bd s])
    then show ?thesis by blast
  qed
qed

lemma crawl_loop_exit: "\<not> loop_cond req (crawl_loop env req bd s)"
proof (induction env req bd s rule: crawl_loop.induct)
  case (1 env req bd s)
  then show ?case
    by (cases "loop_cond req s") (simp_all add: crawl_loop.simps [of env req bd s])
qed

lemma process_links_inv:
  assumes "Q s"
    and "\<And>link t e t'. Q t \<Longrightarrow> link \<in> set links \<Longrightarrow>
           process_link env req bd item link t = (e, t') \<Longrightarrow> Q t'"
  shows "Q (snd (process_links env req bd item links s))"
  using assms
proof (induction links arbitrary: s)
  case Nil
  then show ?case by simp
next
  case (Cons link links)
  obtain e1 s1 where p: "process_link env req bd item link s = (e1, s1)"
    by (cases "process_link env req bd item link s")
  have q1: "Q s1" using Cons.prems(1) p Cons.prems(2) [of s link e1 s1] by simp
  have "Q (snd (process_links env req bd item links s1))"
    using q1 Cons.prems(2) by (intro Cons.IH) auto
  with Cons.prems(1) p q1 show ?case
    by (cases e1) auto
qed

lemma try_body_unfold:
  "try_body env req bd item s =
     (case fetch_text env (world (pre_fetch env req s)) (q_url item) of
        (Inl e, w1) \<Rightarrow> (Some e, pre_fetch env req s\<lparr>world := w1\<rparr>)
      | (Inr html, w1) \<Rightarrow>
          (case extractLinks env html (q_url item) of
             Inl e \<Rightarrow> (Some e, pre_fetch env req s\<lparr>world := w1\<rparr>)
           | Inr links \<Rightarrow> process_links env req bd item links (pre_fetch env req s\<lparr>world := w1\<rparr>)))"
  by (simp add: try_body_def Let_def)

lemma try_body_inv:
  assumes "Q s"
    and "\<And>t w. Q t \<Longrightarrow> Q (t\<lparr>world := w\<rparr>)"
    and "\<And>link t e t'. Q t \<Longrightarrow> process_link env req bd item link t = (e, t') \<Longrightarrow> Q t'"
  shows "Q (snd (try_body env req bd item s))"
proof -
  have q0: "Q (pre_fetch env req s)" using assms(1,2) by (simp add: pre_fetch_def)
  obtain r w1 where f: "fetch_text env (world (pre_fetch env req s)) (q_url item) = (r, w1)"
    by (cases "fetch_text env (world (pre_fetch env req s)) (q_url item)")
  have q1: "Q (pre_fetch env req s\<lparr>world := w1\<rparr>)" using q0 assms(2) by simp
  show ?thesis
  proof (cases r)
    case (Inl e)
    with f q1 show ?thesis by (simp add: try_body_unfold)
  next
    case (Inr html)
    show ?thesis
    proof (cases "extractLinks env html (q_url item)")
      case (Inl e)
      with f q1 \<open>r = Inr html\<close> show ?thesis by (simp add: try_body_unfold)
    next
      case (Inr links)
      have "Q (snd (process_links env req bd item links (pre_fetch env req s\<lparr>world := w1\<rparr>)))"
        using q1 assms(3) by (rule process_links_inv)
      with f \<open>r = Inr html\<close> Inr show ?thesis by (simp add: try_body_unfold)
    qed
  qed
qed

section \<open>The cap on the number of results\<close>

lemma seed_urls_results: "results (seed_urls env us s) = results s"
  by (induction us arbitrary: s) (auto split: option.splits)

lemma seed_state_results: "results (seed_state env us w) = []"
  by (simp add: seed_state_def seed_urls_results)

lemma process_link_cap:
  assumes "process_link env req bd item link s = (e, s')"
    and "url_hostname env (l_targetUrl link) \<noteq> None"
  shows "(e = None \<longrightarrow> length (results s') = Suc (length (results s)))
         \<and> (e \<noteq> None \<longrightarrow> results s' = results s)"
  using assms
  by (auto simp: process_link_def Let_def split: prod.splits sum.splits option.splits if_splits)

lemma process_links_cap:
  assumes "\<forall>link \<in> set links. url_hostname env (l_targetUrl link) \<noteq> None"
    and "process_links env req bd item links s = (e, s')"
    and "int (length (results s)) \<le> \<lceil>maxUrls req\<rceil>"
  shows "(e = None \<longrightarrow> int (length (results s')) \<le> \<lceil>maxUrls req\<rceil>)
         \<and> (e \<noteq> None \<longrightarrow> real (length (results s')) < maxUrls req)"
  using assms
proof (induction links arbitrary: s)
  case Nil
  then show ?case by simp
next
  case (Cons link links)
  show ?case
  proof (cases "real (length (results s)) \<ge> maxUrls req")
    case True
    with Cons.prems show ?thesis by simp
  next
    case False
    obtain e1 s1 where p: "process_link env req bd item link s = (e1, s1)"
      by (cases "process_link env req bd item link s")
    from Cons.prems(1) have h: "url_hostname env (l_targetUrl link) \<noteq> None" by simp
    note c = process_link_cap [OF p h]
    from False have below: "int (length (results s)) < \<lceil>maxUrls req\<rceil>"
      by (simp add: less_ceiling_iff)
    show ?thesis
    proof (cases e1)
      case None
      with Cons.prems(2) False p have r: "process_links env req bd item links s1 = (e, s')"
        by simp
      from c None below have "int (length (results s1)) \<le> \<lceil>maxUrls req\<rceil>" by simp
      with Cons.IH [OF _ r] Cons.prems(1) show ?thesis by simp
    next
      case (Some x)
      with Cons.prems(2) False p c show ?thesis by auto
    qed
  qed
qed

lemma try_body_cap:
  assumes "links_parseable env"
    and "try_body env req bd item s = (e, s')"
    and "real (length (results s)) < maxUrls req"
  shows "(e = None \<longrightarrow> int (length (results s')) \<le> \<lceil>maxUrls req\<rceil>)
         \<and> (e \<noteq> None \<longrightarrow> real (length (results s')) < maxUrls req)"
proof -
  let ?s0 = "pre_fetch env req s"
  have r0: "results ?s0 = results s" by (simp add: pre_fetch_def)
  obtain r w1 where f: "fetch_text env (world ?s0) (q_url item) = (r, w1)"
    by (cases "fetch_text env (world ?s0) (q_url item)")
  show ?thesis
  proof (cases r)
    case (Inl x)
    with f assms(2,3) r0 show ?thesis by (auto simp: try_body_unfold)
  next
    case (Inr html)
    show ?thesis
    proof (cases "extractLinks env html (q_url item)")
      case (Inl x)
      with f \<open>r = Inr html\<close> assms(2,3) r0 show ?thesis by (auto simp: try_body_unfold)
    next
      case (Inr links)
      with assms(1) have ok: "\<forall>link \<in> set links. url_hostname env (l_targetUrl link) \<noteq> None"
        unfolding links_parseable_def by blast
      from f \<open>r = Inr html\<close> Inr assms(2)
      have p: "process_links env req bd item links (?s0\<lparr>world := w1\<rparr>) = (e, s')"
        by (simp add: try_body_unfold)
      from assms(3) r0
      have "int (length (results (?s0\<lparr>world := w1\<rparr>))) \<le> \<lceil>maxUrls req\<rceil>"
        by (simp add: less_ceiling_iff less_imp_le)
      from process_links_cap [OF ok p this] show ?thesis .
    qed
  qed
qed

lemma crawl_step_cap:
  assumes "links_parseable env" and "loop_cond req s"
  shows "int (length (results (crawl_step env req bd s))) \<le> \<lceil>maxUrls req\<rceil>"
proof -
  from assms(2) obtain item rest where q: "queue s = item # rest"
    by (cases "queue s") (auto simp: loop_cond_def)
  obtain e s' where t: "try_body env req bd item (s\<lparr>queue := rest\<rparr>) = (e, s')"
    by (cases "try_body env req bd item (s\<lparr>queue := rest\<rparr>)")
  from assms(2) have "real (length (results (s\<lparr>queue := rest\<rparr>))) < maxUrls req"
    by (simp add: loop_cond_def)
  from try_body_cap [OF assms(1) t this]
  have c: "(e = None \<longrightarrow> int (length (results s')) \<le> \<lceil>maxUrls req\<rceil>)
      \<and> (e \<noteq> None \<longrightarrow> int (length (results s')) < \<lceil>maxUrls req\<rceil>)"
    by (simp add: less_ceiling_iff)
  with q t show ?thesis
    by (cases e) (auto simp: crawl_step_def)
qed

lemma crawl_iter_cap:
  assumes "links_parseable env"
    and "int (length (results s)) \<le> max 0 \<lceil>maxUrls req\<rceil>"
  shows "int (length (results (crawl_iter env req bd n s))) \<le> max 0 \<lceil>maxUrls req\<rceil>"
proof (rule crawl_iter_inv [where P = "\<lambda>t. int (length (results t)) \<le> max 0 \<lceil>maxUrls req\<rceil>"])
  show "int (length (results s)) \<le> max 0 \<lceil>maxUrls req\<rceil>" by (rule assms(2))
next
  fix t :: "'a crawl_state"
  assume "loop_cond req t"
  from crawl_step_cap [OF assms(1) this, of bd]
  show "int (length (results (crawl_step env req bd t))) \<le> max 0 \<lceil>maxUrls req\<rceil>" by simp
qed

lemma handler_array:
  "urls req = UrlsArray us \<Longrightarrow>
   handler env w (Some req) =
     (let s = crawl_loop env req (baseDomains env us) (seed_state env us w)
      in Inr \<lparr>resp_results = results s,
              stats = \<lparr>totalLinks = length (results s),
                       visitedCount = fcard (visited s),
                       remaining = length (queue s)\<rparr>\<rparr>)"
  by (simp add: handler_def)

lemma pause_simps [simp]: "pause None = 0" "pause (Some x) = max 0 x"
  by (simp_all add: pause_def)

lemma demo_links_parseable: "links_parseable demo_env"
  by (auto simp: links_parseable_def demo_env_def plain_link_def split: if_splits)

lemmas demo_defs = demo_env_def demo_req_def baseDomains_def seed_state_def w0_def loop_cond_def
  crawl_step_def try_body_def pre_fetch_def process_link_def wants_enqueue_def link_result_def
  failure_result_def plain_link_def ok_info_def issue_def delayMs_def half_def Let_def
  fcard_finsert_if

text \<open>
  C1, as amended. The results never outnumber the cap rounded up to a whole
  number, nor zero: with \<open>c\<close> the least integer that is at least \<open>maxUrls\<close>,
  and provided the links that \<open>extractLinks\<close> returns are URLs that parse, the
  loop over the links of a page keeps the number of results at most \<open>c\<close>; so
  does an iteration of the crawl loop, the record of a failure included; after
  every iteration, and in the response, the number of results is at most
  \<open>max 0 c\<close>. So it is at most \<open>maxUrls\<close> when \<open>maxUrls\<close> is a whole number
  and not negative.
\<close>

theorem results_within_cap:
  assumes "links_parseable env" and "urls req = UrlsArray us"
  shows "(extractLinks env html url = Inr links
            \<and> int (length (results s)) \<le> \<lceil>maxUrls req\<rceil> \<longrightarrow>
            int (length (results (snd (process_links env req bd item links s))))
              \<le> \<lceil>maxUrls req\<rceil>)
         \<and> (loop_cond req s \<longrightarrow>
              int (length (results (crawl_step env req bd s))) \<le> \<lceil>maxUrls req\<rceil>)
         \<and> int (length (results (crawl_iter env req (baseDomains env us) n (seed_state env us w))))
               \<le> max 0 \<lceil>maxUrls req\<rceil>
         \<and> (\<exists>resp. handler env w (Some req) = Inr resp
               \<and> int (length (resp_results resp)) \<le> max 0 \<lceil>maxUrls req\<rceil>
               \<and> (0 \<le> maxUrls req \<and> maxUrls req \<in> \<int> \<longrightarrow>
                     real (length (resp_results resp)) \<le> maxUrls req))"
proof (intro conjI impI)
  assume a: "extractLinks env html url = Inr links
      \<and> int (length (results s)) \<le> \<lceil>maxUrls req\<rceil>"
  with assms(1) have ok: "\<forall>link \<in> set links. url_hostname env (l_targetUrl link) \<noteq> None"
    unfolding links_parseable_def by blast
  obtain e s' where p: "process_links env req bd item links s = (e, s')"
    by (cases "process_links env req bd item links s")
  from a have "int (length (results s)) \<le> \<lceil>maxUrls req\<rceil>" by simp
  from process_links_cap [OF ok p this]
  have c: "(e = None \<longrightarrow> int (length (results s')) \<le> \<lceil>maxUrls req\<rceil>)
      \<and> (e \<noteq> None \<longrightarrow> int (length (results s')) < \<lceil>maxUrls req\<rceil>)"
    by (simp add: less_ceiling_iff)
  then have "int (length (results s')) \<le> \<lceil>maxUrls req\<rceil>"
    by (cases e) auto
  with p
  show "int (length (results (snd (process_links env req bd item links s))))
          \<le> \<lceil>maxUrls req\<rceil>"
    by simp
next
  assume "loop_cond req s"
  with assms(1) show "int (length (results (crawl_step env req bd s))) \<le> \<lceil>maxUrls req\<rceil>"
    by (rule crawl_step_cap)
next
  have s0: "int (length (results (seed_state env us w))) \<le> max 0 \<lceil>maxUrls req\<rceil>"
    by (simp add: seed_state_results)
  from crawl_iter_cap [OF assms(1) s0]
  show "int (length (results (crawl_iter env req (baseDomains env us) n (seed_state env us w))))
          \<le> max 0 \<lceil>maxUrls req\<rceil>" .
  let ?s = "crawl_loop env req (baseDomains env us) (seed_state env us w)"
  obtain k where k: "?s = crawl_iter env req (baseDomains env us) k (seed_state env us w)"
    using crawl_loop_is_iter by blast
  from crawl_iter_cap [OF assms(1) s0, of "baseDomains env us" k] k
  have b: "int (length (results ?s)) \<le> max 0 \<lceil>maxUrls req\<rceil>" by simp
  have "real (length (results ?s)) \<le> maxUrls req"
    if "0 \<le> maxUrls req \<and> maxUrls req \<in> \<int>"
  proof -
    from that obtain z :: int where z: "maxUrls req = of_int z"
      by (auto elim: Ints_cases)
    with that b have "int (length (results ?s)) \<le> z" by simp
    then have "real_of_int (int (length (results ?s))) \<le> real_of_int z"
      by (simp only: of_int_le_iff)
    with z show ?thesis by simp
  qed
  with b
  show "\<exists>resp. handler env w (Some req) = Inr resp
          \<and> int (length (resp_results resp)) \<le> max 0 \<lceil>maxUrls req\<rceil>
          \<and> (0 \<le> maxUrls req \<and> maxUrls req \<in> \<int> \<longrightarrow>
                real (length (resp_results resp)) \<le> maxUrls req)"
    by (simp add: handler_array [OF assms(2)] Let_def)
qed

text \<open>
  With a cap of one and a half the crawl of the small site records two results,
  the cap rounded up.
\<close>

theorem results_within_cap_witness:
  "links_parseable demo_env \<and> urls frac_req = UrlsArray [''http://a/'']
   \<and> length (results (crawl_iter demo_env frac_req (baseDomains demo_env [''http://a/'']) 3
        (seed_state demo_env [''http://a/''] w0))) = 2
   \<and> \<lceil>maxUrls frac_req\<rceil> = 2
   \<and> int (length (results (crawl_iter demo_env frac_req (baseDomains demo_env [''http://a/'']) 3
        (seed_state demo_env [''http://a/''] w0)))) \<le> max 0 \<lceil>maxUrls frac_req\<rceil>"
proof -
  have u: "urls frac_req = UrlsArray [''http://a/'']"
    by (simp add: frac_req_def demo_req_def)
  have l: "length (results (crawl_iter demo_env frac_req (baseDomains demo_env [''http://a/'']) 3
        (seed_state demo_env [''http://a/''] w0))) = 2"
    by (simp add: frac_req_def demo_defs numeral_3_eq_3)
  have c: "\<lceil>maxUrls frac_req\<rceil> = 2"
    by (simp add: frac_req_def demo_req_def ceiling_eq_iff)
  from results_within_cap [OF demo_links_parseable u, where n = 3 and w = w0]
    demo_links_parseable u l c
  show ?thesis by blast
qed

text \<open>
  With a cap of \<open>- 1\<close> the loop never runs and the empty results outnumber the
  cap; with a cap of one and a half the response holds two results.
\<close>

theorem results_exceed_negative_cap:
  "handler demo_env w0 (Some neg_req) = Inr neg_resp
   \<and> \<not> real (length (resp_results neg_resp)) \<le> maxUrls neg_req
   \<and> length (resp_results (projr (handler demo_env w0 (Some frac_req)))) = 2
   \<and> \<not> real (length (resp_results (projr (handler demo_env w0 (Some frac_req)))))
         \<le> maxUrls frac_req"
proof -
  have n: "handler demo_env w0 (Some neg_req) = Inr neg_resp"
    by (simp add: handler_def neg_req_def neg_resp_def crawl_loop.simps demo_defs)
  have f: "length (resp_results (projr (handler demo_env w0 (Some frac_req)))) = 2"
    by (simp add: handler_def frac_req_def crawl_loop.simps demo_defs)
  have "\<not> real (length (resp_results neg_resp)) \<le> maxUrls neg_req"
    by (simp add: neg_req_def neg_resp_def)
  moreover have "\<not> (2::real) \<le> maxUrls frac_req"
    by (simp add: frac_req_def)
  ultimately show ?thesis using n f by simp
qed

section \<open>The frontier\<close>

text \<open>What one link can do to the frontier and to the visited set.\<close>

lemma process_link_frontier:
  assumes "process_link env req bd item link s = (e, s')"
  shows "(visited s' = visited s \<and> queue s' = queue s)
         \<or> (e = None \<and> recursive req \<and> l_isInternal link \<and> q_depth item < maxDepth req
            \<and> l_targetUrl link |\<notin>| visited s
            \<and> (\<exists>h. url_hostname env (l_targetUrl link) = Some h
                   \<and> (sameDomainOnly req \<longrightarrow> h |\<in>| bd))
            \<and> visited s' = finsert (l_targetUrl link) (visited s)
            \<and> queue s' = queue s @
                 [\<lparr>q_url = l_targetUrl link, q_depth = q_depth item + 1, q_sourceUrl = None\<rparr>])"
  using assms
  by (auto simp: process_link_def wants_enqueue_def Let_def
           split: prod.splits sum.splits option.splits if_splits)

lemma crawl_step_unfold:
  "queue s = item # rest \<Longrightarrow>
   crawl_step env req bd s =
     (case try_body env req bd item (s\<lparr>queue := rest\<rparr>) of
        (None, s') \<Rightarrow> s'
      | (Some e, s') \<Rightarrow> s'\<lparr>results := results s' @ [failure_result item e]\<rparr>)"
  by (simp add: crawl_step_def)

text \<open>
  A property of the frontier and the visited set that every link keeps is kept
  by a whole iteration, started from the state without the item taken.
\<close>

lemma crawl_step_frontier_inv:
  assumes "queue s = item # rest"
    and "Q (s\<lparr>queue := rest\<rparr>)"
    and "\<And>t w. Q t \<Longrightarrow> Q (t\<lparr>world := w\<rparr>)"
    and "\<And>t r. Q t \<Longrightarrow> Q (t\<lparr>results := r\<rparr>)"
    and "\<And>link t e t'. Q t \<Longrightarrow> process_link env req bd item link t = (e, t') \<Longrightarrow> Q t'"
  shows "Q (crawl_step env req bd s)"
proof -
  obtain e s' where t: "try_body env req bd item (s\<lparr>queue := rest\<rparr>) = (e, s')"
    by (cases "try_body env req bd item (s\<lparr>queue := rest\<rparr>)")
  have "Q (snd (try_body env req bd item (s\<lparr>queue := rest\<rparr>)))"
    using assms(2,3,5) by (rule try_body_inv)
  with t have "Q s'" by simp
  with t assms(1,4) show ?thesis
    by (cases e) (simp_all add: crawl_step_unfold)
qed

lemma loop_cond_queue: "loop_cond req s \<Longrightarrow> \<exists>item rest. queue s = item # rest"
  by (cases "queue s") (auto simp: loop_cond_def)

subsection \<open>Without recursion the frontier only shrinks\<close>

lemma crawl_step_flat:
  assumes "\<not> recursive req" and "queue s = item # rest"
  shows "queue (crawl_step env req bd s) = rest \<and> visited (crawl_step env req bd s) = visited s"
proof (rule crawl_step_frontier_inv [OF assms(2),
      where Q = "\<lambda>t. queue t = rest \<and> visited t = visited s"])
  fix link and t t' :: "'a crawl_state" and e
  assume "queue t = rest \<and> visited t = visited s"
    and "process_link env req bd item link t = (e, t')"
  with process_link_frontier [of env req bd item link t e t'] assms(1)
  show "queue t' = rest \<and> visited t' = visited s" by auto
qed simp_all

lemma crawl_iter_flat:
  assumes "\<not> recursive req"
  shows "(\<exists>k. queue (crawl_iter env req bd n s) = drop k (queue s))
         \<and> visited (crawl_iter env req bd n s) = visited s"
proof (rule crawl_iter_inv
    [where P = "\<lambda>t. (\<exists>k. queue t = drop k (queue s)) \<and> visited t = visited s"])
  show "(\<exists>k. queue s = drop k (queue s)) \<and> visited s = visited s"
    by (auto intro: exI [of _ 0])
next
  fix t :: "'a crawl_state"
  assume inv: "(\<exists>k. queue t = drop k (queue s)) \<and> visited t = visited s"
    and "loop_cond req t"
  then obtain item rest where q: "queue t = item # rest"
    using loop_cond_queue by blast
  from inv obtain k where k: "queue t = drop k (queue s)" by blast
  from q k have "rest = drop (Suc k) (queue s)"
    by (metis drop_Suc drop_tl list.sel(3) tl_drop)
  with crawl_step_flat [OF assms q, of env bd] inv
  show "(\<exists>k. queue (crawl_step env req bd t) = drop k (queue s))
        \<and> visited (crawl_step env req bd t) = visited s"
    by auto
qed

subsection \<open>With domain scoping the frontier stays on the seed hostnames\<close>

lemma crawl_step_scoped:
  assumes "sameDomainOnly req" and "queue s = item # rest"
    and "\<forall>q \<in> set (queue s). on_seed_hosts env bd seeds q"
  shows "\<forall>q \<in> set (queue (crawl_step env req bd s)). on_seed_hosts env bd seeds q"
proof (rule crawl_step_frontier_inv [OF assms(2),
      where Q = "\<lambda>t. \<forall>q \<in> set (queue t). on_seed_hosts env bd seeds q"])
  show "\<forall>q \<in> set (queue (s\<lparr>queue := rest\<rparr>)). on_seed_hosts env bd seeds q"
    using assms(2,3) by simp
next
  fix link and t t' :: "'a crawl_state" and e
  assume "\<forall>q \<in> set (queue t). on_seed_hosts env bd seeds q"
    and "process_link env req bd item link t = (e, t')"
  with process_link_frontier [of env req bd item link t e t'] assms(1)
  show "\<forall>q \<in> set (queue t'). on_seed_hosts env bd seeds q"
    by (auto simp: on_seed_hosts_def)
qed simp_all

lemma crawl_iter_scoped:
  assumes "sameDomainOnly req"
  shows "\<forall>q \<in> set (queue (crawl_iter env req bd n s)). on_seed_hosts env bd (queue s) q"
proof (rule crawl_iter_inv
    [where P = "\<lambda>t. \<forall>q \<in> set (queue t). on_seed_hosts env bd (queue s) q"])
  show "\<forall>q \<in> set (queue s). on_seed_hosts env bd (queue s) q"
    by (simp add: on_seed_hosts_def)
next
  fix t :: "'a crawl_state"
  assume inv: "\<forall>q \<in> set (queue t). on_seed_hosts env bd (queue s) q" and "loop_cond req t"
  then obtain item rest where q: "queue t = item # rest"
    using loop_cond_queue by blast
  from crawl_step_scoped [OF assms q inv]
  show "\<forall>q \<in> set (queue (crawl_step env req bd t)). on_seed_hosts env bd (queue s) q" .
qed

text \<open>
  C2. A link is pushed onto the frontier, at the depth of its page plus one,
  only if the request is recursive, the link is internal, the page is above the
  maximum depth, the target is not in the visited set and, under domain scoping,
  the hostname of the target is a seed hostname. Without recursion the frontier
  of every iteration is a tail of the seed frontier and the visited set stays
  the seeds'; under domain scoping every frontier item is a seed item or has a
  seed hostname.
\<close>

theorem enqueue_only_if:
  "(process_link env req (baseDomains env us) item link s = (e, s') \<and> queue s' \<noteq> queue s \<longrightarrow>
      recursive req \<and> l_isInternal link \<and> q_depth item < maxDepth req
      \<and> l_targetUrl link |\<notin>| visited s
      \<and> (sameDomainOnly req \<longrightarrow>
           (\<exists>h. url_hostname env (l_targetUrl link) = Some h \<and> h |\<in>| baseDomains env us))
      \<and> queue s' = queue s @
           [\<lparr>q_url = l_targetUrl link, q_depth = q_depth item + 1, q_sourceUrl = None\<rparr>])
   \<and> (\<not> recursive req \<longrightarrow>
        (\<exists>k. queue (crawl_iter env req (baseDomains env us) n (seed_state env us w))
                = drop k (queue (seed_state env us w)))
        \<and> visited (crawl_iter env req (baseDomains env us) n (seed_state env us w))
            = visited (seed_state env us w))
   \<and> (sameDomainOnly req \<longrightarrow>
        (\<forall>q \<in> set (queue (crawl_iter env req (baseDomains env us) n (seed_state env us w))).
           on_seed_hosts env (baseDomains env us) (queue (seed_state env us w)) q))"
proof (intro conjI impI)
  assume a: "process_link env req (baseDomains env us) item link s = (e, s') \<and> queue s' \<noteq> queue s"
  from process_link_frontier [of env req "baseDomains env us" item link s e s'] a
  have f: "recursive req \<and> l_isInternal link \<and> q_depth item < maxDepth req
      \<and> l_targetUrl link |\<notin>| visited s
      \<and> (\<exists>h. url_hostname env (l_targetUrl link) = Some h
             \<and> (sameDomainOnly req \<longrightarrow> h |\<in>| baseDomains env us))
      \<and> queue s' = queue s @
           [\<lparr>q_url = l_targetUrl link, q_depth = q_depth item + 1, q_sourceUrl = None\<rparr>]"
    by blast
  from f show "recursive req" "l_isInternal link" "q_depth item < maxDepth req"
    "l_targetUrl link |\<notin>| visited s"
    "queue s' = queue s @
           [\<lparr>q_url = l_targetUrl link, q_depth = q_depth item + 1, q_sourceUrl = None\<rparr>]"
    by blast+
  assume "sameDomainOnly req"
  with f show "\<exists>h. url_hostname env (l_targetUrl link) = Some h \<and> h |\<in>| baseDomains env us"
    by blast
next
  assume r: "\<not> recursive req"
  from crawl_iter_flat [OF r, of env "baseDomains env us" n "seed_state env us w"]
  show "\<exists>k. queue (crawl_iter env req (baseDomains env us) n (seed_state env us w))
                = drop k (queue (seed_state env us w))"
    and "visited (crawl_iter env req (baseDomains env us) n (seed_state env us w))
            = visited (seed_state env us w)"
    by blast+
next
  assume d: "sameDomainOnly req"
  from crawl_iter_scoped [OF d]
  show "\<forall>q \<in> set (queue (crawl_iter env req (baseDomains env us) n (seed_state env us w))).
           on_seed_hosts env (baseDomains env us) (queue (seed_state env us w)) q" .
qed

lemma demo_process_link:
  "process_link demo_env demo_req (baseDomains demo_env [''http://a/'']) demo_item demo_link
     (demo_seed\<lparr>queue := []\<rparr>)
   = (None, \<lparr>results = [link_result demo_env demo_item demo_link ok_info],
             visited = {|''http://a/b'', ''http://a/''|},
             queue = [\<lparr>q_url = ''http://a/b'', q_depth = 1, q_sourceUrl = None\<rparr>],
             world = \<lparr>now = 250, sent = [0]\<rparr>\<rparr>)"
  by (simp add: demo_seed_def demo_item_def demo_link_def demo_env_def demo_req_def
      baseDomains_def seed_state_def w0_def process_link_def wants_enqueue_def
      plain_link_def issue_def delayMs_def half_def Let_def)

theorem enqueue_only_if_witness:
  "queue (snd (process_link demo_env demo_req (baseDomains demo_env [''http://a/'']) demo_item
       demo_link (demo_seed\<lparr>queue := []\<rparr>))) \<noteq> queue (demo_seed\<lparr>queue := []\<rparr>)
   \<and> recursive demo_req \<and> l_isInternal demo_link \<and> q_depth demo_item < maxDepth demo_req
   \<and> sameDomainOnly demo_req
   \<and> url_hostname demo_env (l_targetUrl demo_link) = Some ''a''
   \<and> ''a'' |\<in>| baseDomains demo_env [''http://a/'']
   \<and> \<not> recursive flat_req
   \<and> queue (crawl_iter demo_env flat_req (baseDomains demo_env [''http://a/'']) 1
        (seed_state demo_env [''http://a/''] w0)) = drop 1 (queue (seed_state demo_env [''http://a/''] w0))
   \<and> queue (crawl_iter demo_env demo_req (baseDomains demo_env [''http://a/'']) 1
        (seed_state demo_env [''http://a/''] w0))
       = [\<lparr>q_url = ''http://a/b'', q_depth = 1, q_sourceUrl = None\<rparr>]
   \<and> on_seed_hosts demo_env (baseDomains demo_env [''http://a/''])
        (queue (seed_state demo_env [''http://a/''] w0))
        \<lparr>q_url = ''http://a/b'', q_depth = 1, q_sourceUrl = None\<rparr>"
proof -
  let ?bd = "baseDomains demo_env [''http://a/'']"
  let ?s = "demo_seed\<lparr>queue := []\<rparr>"
  have changed: "queue (snd (process_link demo_env demo_req ?bd demo_item demo_link ?s)) \<noteq> queue ?s"
    by (simp add: demo_process_link)
  have p: "process_link demo_env demo_req ?bd demo_item demo_link ?s
      = (fst (process_link demo_env demo_req ?bd demo_item demo_link ?s),
         snd (process_link demo_env demo_req ?bd demo_item demo_link ?s))"
    by simp
  have flat: "\<not> recursive flat_req" by (simp add: flat_req_def demo_req_def)
  have scoped: "sameDomainOnly demo_req" by (simp add: demo_req_def)
  have host: "url_hostname demo_env (l_targetUrl demo_link) = Some ''a''"
    by (simp add: demo_env_def demo_link_def plain_link_def)
  have bd: "''a'' |\<in>| ?bd" by (simp add: baseDomains_def demo_env_def)
  have q1: "queue (crawl_iter demo_env flat_req ?bd 1 (seed_state demo_env [''http://a/''] w0))
      = drop 1 (queue (seed_state demo_env [''http://a/''] w0))"
    by (simp add: flat_req_def demo_env_def demo_req_def baseDomains_def seed_state_def w0_def
        loop_cond_def crawl_step_def try_body_def pre_fetch_def process_link_def
        wants_enqueue_def plain_link_def issue_def delayMs_def half_def Let_def)
  note t1 = enqueue_only_if [of demo_env demo_req "[''http://a/'']" demo_item demo_link ?s
      "fst (process_link demo_env demo_req ?bd demo_item demo_link ?s)"
      "snd (process_link demo_env demo_req ?bd demo_item demo_link ?s)" 1 w0]
  from t1 changed p scoped have
    "recursive demo_req \<and> l_isInternal demo_link \<and> q_depth demo_item < maxDepth demo_req"
    by blast
  moreover have q2: "queue (crawl_iter demo_env demo_req ?bd 1
        (seed_state demo_env [''http://a/''] w0))
      = [\<lparr>q_url = ''http://a/b'', q_depth = 1, q_sourceUrl = None\<rparr>]"
    by (simp add: demo_defs)
  moreover from t1 scoped have
    "\<forall>q \<in> set (queue (crawl_iter demo_env demo_req ?bd 1 (seed_state demo_env [''http://a/''] w0))).
        on_seed_hosts demo_env ?bd (queue (seed_state demo_env [''http://a/''] w0)) q"
    by blast
  with q2 have "on_seed_hosts demo_env ?bd (queue (seed_state demo_env [''http://a/''] w0))
        \<lparr>q_url = ''http://a/b'', q_depth = 1, q_sourceUrl = None\<rparr>"
    by simp
  ultimately show ?thesis
    using changed flat scoped host bd q1 by blast
qed

section \<open>The visited set\<close>

lemma frontier_ok_world [simp]: "frontier_ok (t\<lparr>world := w\<rparr>) = frontier_ok t"
  by (simp add: frontier_ok_def)

lemma frontier_ok_results [simp]: "frontier_ok (t\<lparr>results := r\<rparr>) = frontier_ok t"
  by (simp add: frontier_ok_def)

lemma seed_urls_frontier_ok: "frontier_ok s \<Longrightarrow> frontier_ok (seed_urls env us s)"
proof (induction us arbitrary: s)
  case Nil
  then show ?case by simp
next
  case (Cons u us)
  show ?case
  proof (cases "normalizeUrl env u")
    case None
    with Cons show ?thesis by simp
  next
    case (Some n)
    show ?thesis
    proof (cases "n \<noteq> [] \<and> n |\<notin>| visited s")
      case True
      let ?s1 = "s\<lparr>queue := queue s @ [\<lparr>q_url = n, q_depth = 0, q_sourceUrl = None\<rparr>],
                    visited := finsert n (visited s)\<rparr>"
      from Cons.prems True have "frontier_ok ?s1"
        by (auto simp: frontier_ok_def)
      from Cons.IH [OF this] Some True show ?thesis by simp
    next
      case False
      with Cons Some show ?thesis by auto
    qed
  qed
qed

lemma seed_state_frontier_ok: "frontier_ok (seed_state env us w)"
  unfolding seed_state_def by (rule seed_urls_frontier_ok) (simp add: frontier_ok_def)

lemma process_link_frontier_ok:
  assumes "frontier_ok t" and "process_link env req bd item link t = (e, t')"
  shows "frontier_ok t'"
  using process_link_frontier [OF assms(2)] assms(1)
  by (auto simp: frontier_ok_def)

lemma crawl_step_frontier_ok:
  assumes "frontier_ok s" and "loop_cond req s"
  shows "frontier_ok (crawl_step env req bd s)"
proof -
  from assms(2) obtain item rest where q: "queue s = item # rest"
    using loop_cond_queue by blast
  show ?thesis
  proof (rule crawl_step_frontier_inv [OF q, where Q = frontier_ok])
    show "frontier_ok (s\<lparr>queue := rest\<rparr>)"
      using assms(1) q by (auto simp: frontier_ok_def)
  qed (simp_all add: process_link_frontier_ok)
qed

lemma crawl_iter_frontier_ok:
  "frontier_ok s \<Longrightarrow> frontier_ok (crawl_iter env req bd n s)"
  by (rule crawl_iter_inv [where P = frontier_ok]) (simp_all add: crawl_step_frontier_ok)

text \<open>The visited set only grows.\<close>

lemma seed_urls_visited_mono: "visited s |\<subseteq>| visited (seed_urls env us s)"
proof (induction us arbitrary: s)
  case Nil
  then show ?case by simp
next
  case (Cons u us)
  show ?case
  proof (cases "normalizeUrl env u")
    case None
    with Cons show ?thesis by simp
  next
    case (Some n)
    let ?s1 = "s\<lparr>queue := queue s @ [\<lparr>q_url = n, q_depth = 0, q_sourceUrl = None\<rparr>],
                  visited := finsert n (visited s)\<rparr>"
    from Cons [of ?s1] Cons [of s] Some show ?thesis by auto
  qed
qed

text \<open>What an iteration adds to the frontier was not visited before it.\<close>

lemma crawl_step_fresh:
  assumes "queue t = item # rest"
  shows "visited t |\<subseteq>| visited (crawl_step env req bd t)
         \<and> (\<forall>q \<in> set (queue (crawl_step env req bd t)).
               q \<in> set (queue t) \<or> q_url q |\<notin>| visited t)"
proof (rule crawl_step_frontier_inv [OF assms,
      where Q = "\<lambda>u. visited t |\<subseteq>| visited u
                 \<and> (\<forall>q \<in> set (queue u). q \<in> set (queue t) \<or> q_url q |\<notin>| visited t)"])
  show "visited t |\<subseteq>| visited (t\<lparr>queue := rest\<rparr>)
        \<and> (\<forall>q \<in> set (queue (t\<lparr>queue := rest\<rparr>)). q \<in> set (queue t) \<or> q_url q |\<notin>| visited t)"
    using assms by simp
next
  fix link and u u' :: "'a crawl_state" and e
  assume inv: "visited t |\<subseteq>| visited u
        \<and> (\<forall>q \<in> set (queue u). q \<in> set (queue t) \<or> q_url q |\<notin>| visited t)"
    and p: "process_link env req bd item link u = (e, u')"
  from process_link_frontier [OF p]
  consider "visited u' = visited u" "queue u' = queue u"
    | "l_targetUrl link |\<notin>| visited u"
      "visited u' = finsert (l_targetUrl link) (visited u)"
      "queue u' = queue u @
          [\<lparr>q_url = l_targetUrl link, q_depth = q_depth item + 1, q_sourceUrl = None\<rparr>]"
    by blast
  then show "visited t |\<subseteq>| visited u'
        \<and> (\<forall>q \<in> set (queue u'). q \<in> set (queue t) \<or> q_url q |\<notin>| visited t)"
  proof cases
    case 1
    with inv show ?thesis by simp
  next
    case 2
    from inv 2(1) have "l_targetUrl link |\<notin>| visited t"
      by (meson fsubsetD)
    with inv 2 show ?thesis by auto
  qed
qed simp_all

lemma crawl_iter_fresh:
  "visited s |\<subseteq>| visited (crawl_iter env req bd n s)
   \<and> (\<forall>q \<in> set (queue (crawl_iter env req bd n s)).
         q \<in> set (queue s) \<or> q_url q |\<notin>| visited s)"
proof (rule crawl_iter_inv
    [where P = "\<lambda>t. visited s |\<subseteq>| visited t
                  \<and> (\<forall>q \<in> set (queue t). q \<in> set (queue s) \<or> q_url q |\<notin>| visited s)"])
  show "visited s |\<subseteq>| visited s
        \<and> (\<forall>q \<in> set (queue s). q \<in> set (queue s) \<or> q_url q |\<notin>| visited s)"
    by simp
next
  fix t :: "'a crawl_state"
  assume inv: "visited s |\<subseteq>| visited t
        \<and> (\<forall>q \<in> set (queue t). q \<in> set (queue s) \<or> q_url q |\<notin>| visited s)"
    and "loop_cond req t"
  then obtain item rest where q: "queue t = item # rest"
    using loop_cond_queue by blast
  from crawl_step_fresh [OF q, of env req bd] inv
  show "visited s |\<subseteq>| visited (crawl_step env req bd t)
        \<and> (\<forall>q \<in> set (queue (crawl_step env req bd t)).
              q \<in> set (queue s) \<or> q_url q |\<notin>| visited s)"
    by blast
qed

lemma crawl_step_visited_mono:
  assumes "loop_cond req s"
  shows "visited s |\<subseteq>| visited (crawl_step env req bd s)"
proof -
  from assms obtain item rest where q: "queue s = item # rest"
    using loop_cond_queue by blast
  show ?thesis
  proof (rule crawl_step_frontier_inv [OF q, where Q = "\<lambda>t. visited s |\<subseteq>| visited t"])
    fix link and t t' :: "'a crawl_state" and e
    assume "visited s |\<subseteq>| visited t" and "process_link env req bd item link t = (e, t')"
    with process_link_frontier [of env req bd item link t e t']
    show "visited s |\<subseteq>| visited t'" by auto
  qed simp_all
qed

text \<open>
  The page being expanded is not pushed again: its URL is in the visited set and
  no longer in the frontier, and stays so through the iteration.
\<close>

lemma crawl_step_no_requeue:
  assumes "frontier_ok s" and "queue s = item # rest"
  shows "q_url item \<notin> q_url ` set (queue (crawl_step env req bd s))"
proof -
  let ?Q = "\<lambda>t. q_url item |\<in>| visited t \<and> q_url item \<notin> q_url ` set (queue t)"
  have "?Q (crawl_step env req bd s)"
  proof (rule crawl_step_frontier_inv [OF assms(2), where Q = ?Q])
    show "?Q (s\<lparr>queue := rest\<rparr>)"
      using assms by (auto simp: frontier_ok_def)
  next
    fix link and t t' :: "'a crawl_state" and e
    assume "?Q t" and "process_link env req bd item link t = (e, t')"
    with process_link_frontier [of env req bd item link t e t']
    show "?Q t'" by auto
  qed simp_all
  then show ?thesis by simp
qed

text \<open>
  C3. A URL enters the visited set when it is pushed onto the frontier, and only
  if it was not a member before: after seeding and after every iteration the
  frontier holds no URL twice and only visited URLs; a link step never removes
  a URL from the visited set, pushes a target only when it adds it to the
  visited set as a new member, and leaves the frontier alone when the target
  is visited already, whichever page the link was found on. From any state on,
  the visited set only grows and every entry that later iterations add to the
  frontier is for a URL that was not visited in that state.
\<close>

theorem visited_before_frontier:
  "frontier_ok (crawl_iter env req bd n (seed_state env us w))
   \<and> (process_link env req bd item link s = (e, s') \<longrightarrow>
        visited s |\<subseteq>| visited s'
        \<and> (queue s' \<noteq> queue s \<longrightarrow>
             l_targetUrl link |\<notin>| visited s
             \<and> visited s' = finsert (l_targetUrl link) (visited s)
             \<and> queue s' = queue s @
                  [\<lparr>q_url = l_targetUrl link, q_depth = q_depth item + 1, q_sourceUrl = None\<rparr>])
        \<and> (queue s' = queue s \<longrightarrow> visited s' = visited s)
        \<and> (l_targetUrl link |\<in>| visited s \<longrightarrow> queue s' = queue s))
   \<and> visited t |\<subseteq>| visited (crawl_iter env req bd m t)
   \<and> (\<forall>q \<in> set (queue (crawl_iter env req bd m t)). q \<in> set (queue t) \<or> q_url q |\<notin>| visited t)"
proof (intro conjI impI)
  show "frontier_ok (crawl_iter env req bd n (seed_state env us w))"
    by (rule crawl_iter_frontier_ok) (rule seed_state_frontier_ok)
next
  assume p: "process_link env req bd item link s = (e, s')"
  note f = process_link_frontier [OF p]
  from f show "visited s |\<subseteq>| visited s'" by auto
  from f show "queue s' = queue s \<Longrightarrow> visited s' = visited s" by auto
  from f show "l_targetUrl link |\<in>| visited s \<Longrightarrow> queue s' = queue s" by auto
  assume "queue s' \<noteq> queue s"
  with f show "l_targetUrl link |\<notin>| visited s"
    and "visited s' = finsert (l_targetUrl link) (visited s)"
    and "queue s' = queue s @
           [\<lparr>q_url = l_targetUrl link, q_depth = q_depth item + 1, q_sourceUrl = None\<rparr>]"
    by auto
next
  from crawl_iter_fresh [of t env req bd m]
  show "visited t |\<subseteq>| visited (crawl_iter env req bd m t)"
    and "\<forall>q \<in> set (queue (crawl_iter env req bd m t)). q \<in> set (queue t) \<or> q_url q |\<notin>| visited t"
    by blast+
qed

theorem visited_before_frontier_witness:
  "process_link demo_env demo_req (baseDomains demo_env [''http://a/'']) demo_item demo_link
      (demo_seed\<lparr>queue := []\<rparr>) = (None, demo_after_link)
   \<and> queue demo_after_link \<noteq> queue (demo_seed\<lparr>queue := []\<rparr>)
   \<and> l_targetUrl demo_link |\<notin>| visited (demo_seed\<lparr>queue := []\<rparr>)
   \<and> visited demo_after_link = {|''http://a/b'', ''http://a/''|}
   \<and> process_link demo_env demo_req (baseDomains demo_env [''http://a/'']) demo_item demo_link
        demo_after_link
      = (None, demo_after_link\<lparr>results := results demo_after_link @ results demo_after_link,
                                world := \<lparr>now = 500, sent = [0, 250]\<rparr>\<rparr>)
   \<and> l_targetUrl demo_link |\<in>| visited demo_after_link
   \<and> frontier_ok (crawl_iter demo_env demo_req (baseDomains demo_env [''http://a/'']) 1
        (seed_state demo_env [''http://a/''] w0))"
proof -
  let ?bd = "baseDomains demo_env [''http://a/'']"
  let ?s = "demo_seed\<lparr>queue := []\<rparr>"
  have p1: "process_link demo_env demo_req ?bd demo_item demo_link ?s = (None, demo_after_link)"
    by (simp add: demo_process_link demo_after_link_def)
  have p2: "process_link demo_env demo_req ?bd demo_item demo_link demo_after_link
      = (None, demo_after_link\<lparr>results := results demo_after_link @ results demo_after_link,
                                world := \<lparr>now = 500, sent = [0, 250]\<rparr>\<rparr>)"
    by (simp add: demo_after_link_def demo_item_def demo_link_def demo_env_def demo_req_def
        baseDomains_def process_link_def wants_enqueue_def
        plain_link_def issue_def delayMs_def half_def Let_def)
  have c: "queue demo_after_link \<noteq> queue ?s"
    by (simp add: demo_after_link_def)
  have v: "l_targetUrl demo_link |\<in>| visited demo_after_link"
    by (simp add: demo_after_link_def demo_link_def plain_link_def)
  have v2: "visited demo_after_link = {|''http://a/b'', ''http://a/''|}"
    by (simp add: demo_after_link_def)
  from visited_before_frontier [where env = demo_env and req = demo_req and bd = ?bd and n = 1
      and us = "[''http://a/'']" and w = w0 and item = demo_item and link = demo_link
      and s = ?s and e = None and s' = demo_after_link] p1 c
  have "l_targetUrl demo_link |\<notin>| visited ?s
      \<and> frontier_ok (crawl_iter demo_env demo_req ?bd 1 (seed_state demo_env [''http://a/''] w0))"
    by blast
  with p1 p2 c v v2 show ?thesis by blast
qed

section \<open>Breadth-first order\<close>

lemma process_link_results_shape:
  assumes "process_link env req bd item link s = (e, s')"
  shows "results s' = results s
         \<or> (\<exists>info. results s' = results s @ [link_result env item link info])"
  using assms
  by (auto simp: process_link_def Let_def split: prod.splits sum.splits option.splits if_splits)

lemma bfs_mid_world [simp]: "bfs_mid d (t\<lparr>world := w\<rparr>) = bfs_mid d t"
  by (simp add: bfs_mid_def)

lemma process_link_bfs_mid:
  assumes "bfs_mid (q_depth item) t" and "process_link env req bd item link t = (e, t')"
  shows "bfs_mid (q_depth item) t'"
proof -
  from process_link_results_shape [OF assms(2)]
  have r: "sorted (map depth (results t')) \<and> (\<forall>r \<in> set (results t'). depth r \<le> q_depth item)"
    using assms(1) by (auto simp: bfs_mid_def link_result_def sorted_append)
  from process_link_frontier [OF assms(2)]
  have q: "sorted (map q_depth (queue t'))
      \<and> (\<forall>q \<in> set (queue t'). q_depth item \<le> q_depth q \<and> q_depth q \<le> q_depth item + 1)"
    using assms(1) by (auto simp: bfs_mid_def sorted_append)
  from r q show ?thesis by (simp add: bfs_mid_def)
qed

lemma bfs_mid_ok:
  assumes "bfs_mid d u"
  shows "bfs_ok u"
proof -
  from assms have a: "\<And>r. r \<in> set (results u) \<Longrightarrow> depth r \<le> d"
    and b: "\<And>q. q \<in> set (queue u) \<Longrightarrow> d \<le> q_depth q"
    and c: "\<And>q. q \<in> set (queue u) \<Longrightarrow> q_depth q \<le> d + 1"
    and s: "sorted (map depth (results u))" "sorted (map q_depth (queue u))"
    by (simp_all add: bfs_mid_def)
  have "depth r \<le> q_depth q" if "r \<in> set (results u)" "q \<in> set (queue u)" for r q
    using a [OF that(1)] b [OF that(2)] by simp
  moreover have "q_depth q' \<le> q_depth q + 1" if "q \<in> set (queue u)" "q' \<in> set (queue u)" for q q'
    using b [OF that(1)] c [OF that(2)] by simp
  ultimately show ?thesis using s by (simp add: bfs_ok_def)
qed

lemma crawl_step_bfs_ok:
  assumes "bfs_ok s" and "loop_cond req s"
  shows "bfs_ok (crawl_step env req bd s)"
proof -
  from assms(2) obtain item rest where q: "queue s = item # rest"
    using loop_cond_queue by blast
  obtain e s' where t: "try_body env req bd item (s\<lparr>queue := rest\<rparr>) = (e, s')"
    by (cases "try_body env req bd item (s\<lparr>queue := rest\<rparr>)")
  have start: "bfs_mid (q_depth item) (s\<lparr>queue := rest\<rparr>)"
    using assms(1) q by (auto simp: bfs_ok_def bfs_mid_def)
  have "bfs_mid (q_depth item) (snd (try_body env req bd item (s\<lparr>queue := rest\<rparr>)))"
    using start by (rule try_body_inv) (simp_all add: process_link_bfs_mid)
  with t have m: "bfs_mid (q_depth item) s'" by simp
  have m': "bfs_mid (q_depth item) (s'\<lparr>results := results s' @ [failure_result item x]\<rparr>)" for x
    using m by (auto simp: bfs_mid_def failure_result_def sorted_append)
  from m m' have "bfs_ok s'"
    and "bfs_ok (s'\<lparr>results := results s' @ [failure_result item x]\<rparr>)" for x
    by (blast intro: bfs_mid_ok)+
  with t q show ?thesis
    by (cases e) (simp_all add: crawl_step_unfold)
qed

lemma seed_urls_depth:
  "\<forall>q \<in> set (queue s). q_depth q = 0 \<Longrightarrow> \<forall>q \<in> set (queue (seed_urls env us s)). q_depth q = 0"
proof (induction us arbitrary: s)
  case Nil
  then show ?case by simp
next
  case (Cons u us)
  let ?s1 = "\<lambda>n. s\<lparr>queue := queue s @ [\<lparr>q_url = n, q_depth = 0, q_sourceUrl = None\<rparr>],
                     visited := finsert n (visited s)\<rparr>"
  have "\<forall>q \<in> set (queue (?s1 n)). q_depth q = 0" for n
    using Cons.prems by simp
  from Cons.IH [OF this] Cons.IH [OF Cons.prems] show ?case
    by (simp split: option.splits)
qed

lemma sorted_constant: "\<forall>x \<in> set xs. f x = (0::int) \<Longrightarrow> sorted (map f xs)"
  by (induction xs) auto

lemma seed_state_bfs_ok: "bfs_ok (seed_state env us w)"
proof -
  have "\<forall>q \<in> set (queue (seed_state env us w)). q_depth q = 0"
    unfolding seed_state_def by (rule seed_urls_depth) simp
  then show ?thesis
    by (simp add: bfs_ok_def seed_state_results sorted_constant)
qed

lemma crawl_iter_bfs_ok: "bfs_ok s \<Longrightarrow> bfs_ok (crawl_iter env req bd n s)"
  by (rule crawl_iter_inv [where P = bfs_ok]) (simp_all add: crawl_step_bfs_ok)

text \<open>
  C4. The crawl is breadth-first: after every iteration the depths of the
  results are non-decreasing, the depths of the frontier are non-decreasing,
  and every page still in the frontier is at least as deep as every result
  recorded so far; the results of the response are in non-decreasing depth.
  This holds with recursion and without.
\<close>

theorem breadth_first_order:
  "sorted (map depth (results (crawl_iter env req bd n (seed_state env us w))))
   \<and> sorted (map q_depth (queue (crawl_iter env req bd n (seed_state env us w))))
   \<and> (\<forall>r \<in> set (results (crawl_iter env req bd n (seed_state env us w))).
        \<forall>q \<in> set (queue (crawl_iter env req bd n (seed_state env us w))). depth r \<le> q_depth q)
   \<and> (urls req = UrlsArray us \<longrightarrow>
        (\<exists>resp. handler env w (Some req) = Inr resp \<and> sorted (map depth (resp_results resp))))"
proof -
  have ok: "bfs_ok (crawl_iter env req b k (seed_state env us w))" for b k
    by (rule crawl_iter_bfs_ok) (rule seed_state_bfs_ok)
  obtain k where k: "crawl_loop env req (baseDomains env us) (seed_state env us w)
      = crawl_iter env req (baseDomains env us) k (seed_state env us w)"
    using crawl_loop_is_iter by blast
  from ok [of "baseDomains env us" k] k
  have "sorted (map depth (results (crawl_loop env req (baseDomains env us) (seed_state env us w))))"
    by (simp add: bfs_ok_def)
  then have "urls req = UrlsArray us \<longrightarrow>
        (\<exists>resp. handler env w (Some req) = Inr resp \<and> sorted (map depth (resp_results resp)))"
    by (simp add: handler_array Let_def)
  with ok [of bd n] show ?thesis
    by (simp add: bfs_ok_def)
qed

lemma demo_handler_depths:
  "map depth (results (crawl_loop demo_env demo_req (baseDomains demo_env [''http://a/''])
      (seed_state demo_env [''http://a/''] w0))) = [0, 0, 1, 1, 2]"
  by (simp add: crawl_loop.simps demo_defs)

theorem breadth_first_order_witness:
  "recursive demo_req \<and> urls demo_req = UrlsArray [''http://a/'']
   \<and> (\<exists>resp. handler demo_env w0 (Some demo_req) = Inr resp
         \<and> map depth (resp_results resp) = [0, 0, 1, 1, 2]
         \<and> sorted (map depth (resp_results resp)))"
proof -
  have u: "urls demo_req = UrlsArray [''http://a/'']" and r: "recursive demo_req"
    by (simp_all add: demo_req_def)
  from breadth_first_order [of demo_env demo_req "baseDomains demo_env [''http://a/'']" 0
      "[''http://a/'']" w0] u
  obtain resp where h: "handler demo_env w0 (Some demo_req) = Inr resp"
    and s: "sorted (map depth (resp_results resp))"
    by blast
  from h have "map depth (resp_results resp) = [0, 0, 1, 1, 2]"
    by (auto simp: handler_array [OF u] Let_def demo_handler_depths)
  with u r h s show ?thesis by simp
qed

section \<open>The records the crawl emits\<close>

text \<open>
  C5. When the resolver returns for a discovered link, the link step appends
  exactly one result; its \<open>targetUrl\<close> is the URL of the link as
  \<open>extractLinks\<close> gave it, whatever the redirect chain holds, and its
  \<open>status\<close> is the \<open>finalStatus\<close> the resolver computed for that URL.
\<close>

theorem link_result_fields:
  assumes "getRedirectChain env (world s) (l_targetUrl link) = (Inr info, w1)"
    and "process_link env req bd item link s = (e, s')"
  shows "results s' = results s @ [last (results s')]
         \<and> targetUrl (last (results s')) = l_targetUrl link
         \<and> status (last (results s')) = finalStatus info
         \<and> sourceUrl (last (results s')) = q_url item
         \<and> depth (last (results s')) = q_depth item"
  using assms
  by (auto simp: process_link_def link_result_def Let_def split: option.splits if_splits)

text \<open>
  A link to \<open>https://a.test/b\<close>, which redirects with 301 to
  \<open>https://a.test/c\<close>, which answers 200.
\<close>

theorem link_result_fields_witness:
  "getRedirectChain redirect_env (world redirect_state) (l_targetUrl redirect_link)
     = (Inr redirect_info, issue w0)
   \<and> results (snd (process_link redirect_env demo_req {||} redirect_item redirect_link
        redirect_state))
     = [\<lparr>sourceUrl = ''https://a.test/'', targetUrl = ''https://a.test/b'', status = 200,
         redirectChain = [], type = internal, anchorText = ''t'', rel = [], depth = 0,
         error = None\<rparr>]"
proof -
  have g: "getRedirectChain redirect_env (world redirect_state) (l_targetUrl redirect_link)
      = (Inr redirect_info, issue w0)"
    by (simp add: redirect_env_def redirect_state_def)
  have p: "process_link redirect_env demo_req {||} redirect_item redirect_link redirect_state
      = (fst (process_link redirect_env demo_req {||} redirect_item redirect_link redirect_state),
         snd (process_link redirect_env demo_req {||} redirect_item redirect_link redirect_state))"
    by simp
  have r: "results (snd (process_link redirect_env demo_req {||} redirect_item redirect_link
        redirect_state))
     = [\<lparr>sourceUrl = ''https://a.test/'', targetUrl = ''https://a.test/b'', status = 200,
         redirectChain = [], type = internal, anchorText = ''t'', rel = [], depth = 0,
         error = None\<rparr>]"
    by (simp add: process_link_def redirect_env_def redirect_state_def redirect_link_def
        redirect_item_def redirect_info_def link_result_def plain_link_def demo_env_def
        wants_enqueue_def demo_req_def Let_def split: option.splits)
  from link_result_fields [OF g p] g r show ?thesis by simp
qed

section \<open>The response\<close>

text \<open>
  C6. For a request with an array of URLs the handler returns the results of the
  state in which the loop stopped, with \<open>totalLinks\<close> their number,
  \<open>visited\<close> the size of the visited set and \<open>remaining\<close> the length of the
  frontier of that state; the loop condition is false there, so \<open>remaining\<close> is
  non-zero only if the number of results has reached \<open>maxUrls\<close>.
\<close>

theorem stats_exact:
  assumes "urls req = UrlsArray us"
  shows "\<exists>resp. handler env w (Some req) = Inr resp
           \<and> resp_results resp
               = results (crawl_loop env req (baseDomains env us) (seed_state env us w))
           \<and> totalLinks (stats resp) = length (resp_results resp)
           \<and> visitedCount (stats resp)
               = fcard (visited (crawl_loop env req (baseDomains env us) (seed_state env us w)))
           \<and> remaining (stats resp)
               = length (queue (crawl_loop env req (baseDomains env us) (seed_state env us w)))
           \<and> \<not> loop_cond req (crawl_loop env req (baseDomains env us) (seed_state env us w))
           \<and> (remaining (stats resp) \<noteq> 0 \<longrightarrow> maxUrls req \<le> real (totalLinks (stats resp)))"
proof -
  let ?s = "crawl_loop env req (baseDomains env us) (seed_state env us w)"
  have x: "\<not> loop_cond req ?s" by (rule crawl_loop_exit)
  then have "length (queue ?s) \<noteq> 0 \<longrightarrow> maxUrls req \<le> real (length (results ?s))"
    by (auto simp: loop_cond_def)
  with x show ?thesis
    by (simp add: handler_array [OF assms] Let_def)
qed

lemma capped_handler:
  "handler demo_env w0 (Some capped_req)
   = Inr \<lparr>resp_results =
            [link_result demo_env demo_item demo_link ok_info,
             link_result demo_env demo_item (plain_link ''http://x/'' False) ok_info],
          stats = \<lparr>totalLinks = 2, visitedCount = 2, remaining = 1\<rparr>\<rparr>"
  by (simp add: handler_def capped_req_def demo_item_def demo_link_def crawl_loop.simps demo_defs)

theorem stats_exact_witness:
  "urls capped_req = UrlsArray [''http://a/'']
   \<and> stats (projr (handler demo_env w0 (Some capped_req)))
       = \<lparr>totalLinks = 2, visitedCount = 2, remaining = 1\<rparr>
   \<and> length (resp_results (projr (handler demo_env w0 (Some capped_req)))) = 2
   \<and> maxUrls capped_req \<le> 2"
proof -
  have u: "urls capped_req = UrlsArray [''http://a/'']"
    by (simp add: capped_req_def demo_req_def)
  from stats_exact [OF u, of demo_env w0]
  have "remaining (stats (projr (handler demo_env w0 (Some capped_req)))) \<noteq> 0 \<longrightarrow>
      maxUrls capped_req \<le> real (totalLinks (stats (projr (handler demo_env w0 (Some capped_req)))))"
    by auto
  then have "maxUrls capped_req \<le> 2" by (simp add: capped_handler)
  with u show ?thesis by (simp add: capped_handler)
qed

section \<open>Failures of a page\<close>

lemma pre_fetch_queue [simp]:
  "pre_fetch env req (s\<lparr>queue := q\<rparr>) = (pre_fetch env req s)\<lparr>queue := q\<rparr>"
  by (simp add: pre_fetch_def)

lemma pre_fetch_fields [simp]:
  "results (pre_fetch env req s) = results s"
  "visited (pre_fetch env req s) = visited s"
  "queue (pre_fetch env req s) = queue s"
  by (simp_all add: pre_fetch_def)

lemma try_body_fetch_fails:
  assumes "fetch_text env (world (pre_fetch env req s)) (q_url item) = (Inl e, w1)"
  shows "try_body env req bd item (s\<lparr>queue := rest\<rparr>)
         = (Some e, (pre_fetch env req s)\<lparr>queue := rest, world := w1\<rparr>)"
  using assms by (simp add: try_body_unfold)

text \<open>
  C7. When the \<open>try\<close> block for a page throws, whatever the value thrown, the
  iteration appends one result after those the block had appended, with the
  URL of the page as \<open>targetUrl\<close>, status 0 and the message as \<open>error\<close>; when it
  is the fetch that throws, this is the only result appended. The frontier is
  the one the block left, the loop goes on from the state so reached, the page
  is not in the frontier again, and the handler returns a response.
\<close>

theorem page_failure_recorded:
  assumes "queue s = item # rest"
    and "try_body env req bd item (s\<lparr>queue := rest\<rparr>) = (Some e, s')"
  shows "results (crawl_step env req bd s) = results s' @ [failure_result item e]
         \<and> targetUrl (failure_result item e) = q_url item
         \<and> status (failure_result item e) = 0
         \<and> error (failure_result item e) = Some (thrown_message e)
         \<and> queue (crawl_step env req bd s) = queue s'
         \<and> (\<forall>x w1. fetch_text env (world (pre_fetch env req s)) (q_url item) = (Inl x, w1) \<longrightarrow>
               x = e \<and> results s' = results s \<and> queue s' = rest)
         \<and> (loop_cond req s \<longrightarrow>
               crawl_loop env req bd s = crawl_loop env req bd (crawl_step env req bd s))
         \<and> (frontier_ok s \<longrightarrow> q_url item \<notin> q_url ` set (queue (crawl_step env req bd s)))
         \<and> (\<forall>us w. urls req = UrlsArray us \<longrightarrow> (\<exists>resp. handler env w (Some req) = Inr resp))"
proof (intro conjI allI impI)
  show "results (crawl_step env req bd s) = results s' @ [failure_result item e]"
    and "queue (crawl_step env req bd s) = queue s'"
    using assms by (simp_all add: crawl_step_unfold)
  show "targetUrl (failure_result item e) = q_url item"
    and "status (failure_result item e) = 0"
    and "error (failure_result item e) = Some (thrown_message e)"
    by (simp_all add: failure_result_def)
next
  fix x w1
  assume "fetch_text env (world (pre_fetch env req s)) (q_url item) = (Inl x, w1)"
  from try_body_fetch_fails [OF this, of bd rest] assms(2)
  show "x = e" and "results s' = results s" and "queue s' = rest" by auto
next
  assume "loop_cond req s"
  then show "crawl_loop env req bd s = crawl_loop env req bd (crawl_step env req bd s)"
    by (simp add: crawl_loop.simps [of env req bd s])
next
  assume "frontier_ok s"
  from crawl_step_no_requeue [OF this assms(1)]
  show "q_url item \<notin> q_url ` set (queue (crawl_step env req bd s))" .
next
  fix us w
  assume "urls req = UrlsArray us"
  then show "\<exists>resp. handler env w (Some req) = Inr resp"
    by (simp add: handler_array Let_def)
qed

theorem page_failure_recorded_witness:
  "queue failing_state = failing_item # []
   \<and> try_body demo_env demo_req {|''a''|} failing_item (failing_state\<lparr>queue := []\<rparr>)
       = (Some (ErrorObj ''fetch failed''),
          failing_state\<lparr>queue := [], world := \<lparr>now = 500, sent = [500]\<rparr>\<rparr>)
   \<and> results (crawl_step demo_env demo_req {|''a''|} failing_state)
       = results failing_state @
           [\<lparr>sourceUrl = ''http://a/c'', targetUrl = ''http://a/c'', status = 0,
             redirectChain = [], type = internal, anchorText = [], rel = [], depth = 2,
             error = Some ''fetch failed''\<rparr>]
   \<and> queue (crawl_step demo_env demo_req {|''a''|} failing_state) = []"
proof -
  have q: "queue failing_state = failing_item # []"
    by (simp add: failing_state_def)
  have t: "try_body demo_env demo_req {|''a''|} failing_item (failing_state\<lparr>queue := []\<rparr>)
       = (Some (ErrorObj ''fetch failed''),
          failing_state\<lparr>queue := [], world := \<lparr>now = 500, sent = [500]\<rparr>\<rparr>)"
    by (simp add: try_body_def pre_fetch_def failing_state_def failing_item_def demo_env_def
        demo_req_def delayMs_def issue_def w0_def Let_def)
  from page_failure_recorded [OF q t] q t show ?thesis
    by (simp add: failure_result_def failing_item_def)
qed

section \<open>The source of a failure record\<close>

lemma seed_urls_no_source:
  "\<forall>q \<in> set (queue s). q_sourceUrl q = None \<Longrightarrow>
   \<forall>q \<in> set (queue (seed_urls env us s)). q_sourceUrl q = None"
proof (induction us arbitrary: s)
  case Nil
  then show ?case by simp
next
  case (Cons u us)
  let ?s1 = "\<lambda>n. s\<lparr>queue := queue s @ [\<lparr>q_url = n, q_depth = 0, q_sourceUrl = None\<rparr>],
                     visited := finsert n (visited s)\<rparr>"
  have "\<forall>q \<in> set (queue (?s1 n)). q_sourceUrl q = None" for n
    using Cons.prems by simp
  from Cons.IH [OF this] Cons.IH [OF Cons.prems] show ?case
    by (simp split: option.splits)
qed

lemma crawl_step_no_source:
  assumes "\<forall>q \<in> set (queue s). q_sourceUrl q = None" and "loop_cond req s"
  shows "\<forall>q \<in> set (queue (crawl_step env req bd s)). q_sourceUrl q = None"
proof -
  from assms(2) obtain item rest where q: "queue s = item # rest"
    using loop_cond_queue by blast
  show ?thesis
  proof (rule crawl_step_frontier_inv [OF q,
        where Q = "\<lambda>t. \<forall>q \<in> set (queue t). q_sourceUrl q = None"])
    show "\<forall>q \<in> set (queue (s\<lparr>queue := rest\<rparr>)). q_sourceUrl q = None"
      using assms(1) q by simp
  next
    fix link and t t' :: "'a crawl_state" and e
    assume "\<forall>q \<in> set (queue t). q_sourceUrl q = None"
      and "process_link env req bd item link t = (e, t')"
    with process_link_frontier [of env req bd item link t e t']
    show "\<forall>q \<in> set (queue t'). q_sourceUrl q = None" by auto
  qed simp_all
qed

lemma crawl_iter_no_source:
  "\<forall>q \<in> set (queue (crawl_iter env req bd n (seed_state env us w))). q_sourceUrl q = None"
proof (rule crawl_iter_inv [where P = "\<lambda>t. \<forall>q \<in> set (queue t). q_sourceUrl q = None"])
  show "\<forall>q \<in> set (queue (seed_state env us w)). q_sourceUrl q = None"
    unfolding seed_state_def by (rule seed_urls_no_source) simp
qed (simp add: crawl_step_no_source)

text \<open>
  C10. No frontier item of a crawl carries a \<open>sourceUrl\<close>. So when the \<open>try\<close>
  block throws for the page taken in a state the crawl has reached, the record
  appended has that page's URL both as \<open>sourceUrl\<close> and as \<open>targetUrl\<close>, type
  \<open>internal\<close>, and empty \<open>redirectChain\<close>, \<open>anchorText\<close> and \<open>rel\<close>.
\<close>

theorem failure_record_fields:
  assumes "queue (crawl_iter env req bd n (seed_state env us w)) = item # rest"
    and "try_body env req bd item
           ((crawl_iter env req bd n (seed_state env us w))\<lparr>queue := rest\<rparr>) = (Some e, s')"
  shows "q_sourceUrl item = None
         \<and> last (results (crawl_step env req bd (crawl_iter env req bd n (seed_state env us w))))
             = \<lparr>sourceUrl = q_url item, targetUrl = q_url item, status = 0,
                redirectChain = [], type = internal, anchorText = [], rel = [],
                depth = q_depth item, error = Some (thrown_message e)\<rparr>"
proof -
  from crawl_iter_no_source [of env req bd n us w] assms(1)
  have n: "q_sourceUrl item = None" by simp
  from assms have "last (results (crawl_step env req bd
      (crawl_iter env req bd n (seed_state env us w)))) = failure_result item e"
    by (simp add: crawl_step_unfold)
  with n show ?thesis by (simp add: failure_result_def)
qed

theorem failure_record_fields_witness:
  "queue (crawl_iter demo_env demo_req (baseDomains demo_env [''http://a/'']) 2
       (seed_state demo_env [''http://a/''] w0)) = failing_item # []
   \<and> fst (try_body demo_env demo_req (baseDomains demo_env [''http://a/'']) failing_item
        ((crawl_iter demo_env demo_req (baseDomains demo_env [''http://a/'']) 2
           (seed_state demo_env [''http://a/''] w0))\<lparr>queue := []\<rparr>))
       = Some (ErrorObj ''fetch failed'')
   \<and> last (results (crawl_step demo_env demo_req (baseDomains demo_env [''http://a/''])
        (crawl_iter demo_env demo_req (baseDomains demo_env [''http://a/'']) 2
           (seed_state demo_env [''http://a/''] w0))))
       = \<lparr>sourceUrl = ''http://a/c'', targetUrl = ''http://a/c'', status = 0,
          redirectChain = [], type = internal, anchorText = [], rel = [],
          depth = 2, error = Some ''fetch failed''\<rparr>"
proof -
  let ?bd = "baseDomains demo_env [''http://a/'']"
  let ?s = "crawl_iter demo_env demo_req ?bd 2 (seed_state demo_env [''http://a/''] w0)"
  have q: "queue ?s = failing_item # []"
    by (simp add: failing_item_def numeral_2_eq_2 demo_defs)
  have f: "fst (try_body demo_env demo_req ?bd failing_item (?s\<lparr>queue := []\<rparr>))
      = Some (ErrorObj ''fetch failed'')"
    by (simp add: try_body_unfold failing_item_def demo_env_def split: prod.splits)
  then have t: "try_body demo_env demo_req ?bd failing_item (?s\<lparr>queue := []\<rparr>)
      = (Some (ErrorObj ''fetch failed''),
         snd (try_body demo_env demo_req ?bd failing_item (?s\<lparr>queue := []\<rparr>)))"
    by (metis prod.collapse)
  from failure_record_fields [OF q t] q f show ?thesis
    by (simp add: failing_item_def)
qed

section \<open>Validation of the request\<close>

lemma handler_validation:
  "handler env w (Some req) = Inl (HttpError 400 ''urls array required'')
     \<longleftrightarrow> (\<forall>us. urls req \<noteq> UrlsArray us)"
  by (cases "urls req") (simp_all add: handler_def Let_def)

text \<open>
  C8, at the input where the code departs from it. A request without a body
  makes \<open>readBody\<close> yield \<open>undefined\<close>; the handler then throws while it
  reads \<open>body.urls\<close>, before the check that would have answered 400, and the
  error it ends with is not the client error.
\<close>

theorem missing_body_uncaught:
  "handler env w None = Inl (Uncaught (ErrorObj ''TypeError''))
   \<and> handler env w None \<noteq> Inl (HttpError 400 ''urls array required'')"
  by (simp add: handler_def)

section \<open>Pauses between requests\<close>

lemma demo_clock_like: "clock_like demo_env"
  by (simp add: clock_like_def demo_env_def)

lemma process_link_clock:
  assumes "clock_like env" and "0 < rateLimit req"
    and "process_link env req bd item link s = (None, s')"
  shows "sent (world s') = sent (world s) @ [now (world s)]
         \<and> now (world s') = now (world s) + 500 / rateLimit req"
proof -
  obtain r w1 where g: "getRedirectChain env (world s) (l_targetUrl link) = (r, w1)"
    by (cases "getRedirectChain env (world s) (l_targetUrl link)")
  with assms(1) have w1: "w1 = issue (world s)"
    by (metis clock_like_def snd_conv)
  from assms(1) have sl: "sleep env d w = w\<lparr>now := now w + pause d\<rparr>" for d w
    by (simp add: clock_like_def)
  from assms(2) have d: "pause (half (delayMs req)) = 500 / rateLimit req"
    by (simp add: delayMs_def half_def)
  from assms(3) g w1 sl d show ?thesis
    by (auto simp: process_link_def issue_def Let_def
             split: sum.splits option.splits if_splits)
qed

lemma process_link_sent:
  assumes "clock_like env"
    and "process_link env req bd item link s = (e, s')"
    and "\<exists>ts. sent (world s) = base @ ts"
  shows "\<exists>ts. sent (world s') = base @ ts"
proof -
  obtain r w1 where g: "getRedirectChain env (world s) (l_targetUrl link) = (r, w1)"
    by (cases "getRedirectChain env (world s) (l_targetUrl link)")
  with assms(1) have w1: "w1 = issue (world s)"
    by (metis clock_like_def snd_conv)
  from assms(1) have sl: "sleep env d w = w\<lparr>now := now w + pause d\<rparr>" for d w
    by (simp add: clock_like_def)
  from assms(2,3) g w1 sl show ?thesis
    by (auto simp: process_link_def issue_def Let_def
             split: sum.splits option.splits if_splits)
qed

lemma try_body_clock:
  assumes "clock_like env" and "0 < rateLimit req" and "results s \<noteq> []"
  shows "\<exists>ts. sent (world (snd (try_body env req bd item s)))
           = (sent (world s) @ [now (world s) + 1000 / rateLimit req]) @ ts"
proof -
  let ?base = "sent (world s) @ [now (world s) + 1000 / rateLimit req]"
  from assms(1) have sl: "sleep env d w = w\<lparr>now := now w + pause d\<rparr>" for d w
    by (simp add: clock_like_def)
  from assms(2) have d: "pause (delayMs req) = 1000 / rateLimit req"
    by (simp add: delayMs_def)
  from assms(3) sl d
  have w: "world (pre_fetch env req s) = (world s)\<lparr>now := now (world s) + 1000 / rateLimit req\<rparr>"
    by (simp add: pre_fetch_def)
  obtain r w1 where f: "fetch_text env (world (pre_fetch env req s)) (q_url item) = (r, w1)"
    by (cases "fetch_text env (world (pre_fetch env req s)) (q_url item)")
  with assms(1) have "w1 = issue (world (pre_fetch env req s))"
    by (metis clock_like_def snd_conv)
  with w have s1: "sent w1 = ?base" by (simp add: issue_def)
  have links: "\<exists>ts. sent (world (snd (process_links env req bd item links
      (pre_fetch env req s\<lparr>world := w1\<rparr>)))) = ?base @ ts" for links
  proof (rule process_links_inv [where Q = "\<lambda>t. \<exists>ts. sent (world t) = ?base @ ts"])
    show "\<exists>ts. sent (world (pre_fetch env req s\<lparr>world := w1\<rparr>)) = ?base @ ts"
      using s1 by simp
  next
    fix link and t t' :: "clock_world crawl_state" and e
    assume "\<exists>ts. sent (world t) = ?base @ ts"
      and "process_link env req bd item link t = (e, t')"
    with process_link_sent [OF assms(1), of req bd item link t e t' ?base]
    show "\<exists>ts. sent (world t') = ?base @ ts" by blast
  qed
  show ?thesis
  proof (cases r)
    case (Inl x)
    with f s1 show ?thesis by (simp add: try_body_unfold)
  next
    case (Inr html)
    show ?thesis
    proof (cases "extractLinks env html (q_url item)")
      case (Inl x)
      with f s1 \<open>r = Inr html\<close> show ?thesis by (simp add: try_body_unfold)
    next
      case (Inr ls)
      with f \<open>r = Inr html\<close> links [of ls] show ?thesis by (simp add: try_body_unfold)
    qed
  qed
qed

text \<open>
  C9, as amended. The crawl paces itself with pauses of fixed length. Where only
  \<open>sleep\<close> moves the clock and the rate limit is positive, a link check that
  completes is issued at once and followed by a pause of half the interval,
  \<open>500 / rateLimit\<close> ms; and when a result has been recorded, the fetch of the
  next page is issued \<open>1000 / rateLimit\<close> ms after the iteration begins, the
  requests already sent being kept in their order.
\<close>

theorem fixed_pauses:
  assumes "clock_like env" and "0 < rateLimit req"
  shows "(process_link env req bd item link s = (None, s') \<longrightarrow>
            sent (world s') = sent (world s) @ [now (world s)]
            \<and> now (world s') = now (world s) + 500 / rateLimit req)
         \<and> (results s \<noteq> [] \<longrightarrow>
              (\<exists>ts. sent (world (snd (try_body env req bd item s)))
                 = (sent (world s) @ [now (world s) + 1000 / rateLimit req]) @ ts))"
  using process_link_clock [OF assms] try_body_clock [OF assms] by blast

theorem fixed_pauses_witness:
  "clock_like demo_env \<and> 0 < rateLimit demo_req
   \<and> process_link demo_env demo_req (baseDomains demo_env [''http://a/'']) demo_item demo_link
       (demo_seed\<lparr>queue := []\<rparr>) = (None, demo_after_link)
   \<and> sent (world demo_after_link) = sent (world (demo_seed\<lparr>queue := []\<rparr>)) @ [0]
   \<and> now (world demo_after_link) = 250
   \<and> results failing_state \<noteq> []
   \<and> sent (world (snd (try_body demo_env demo_req {|''a''|} failing_item failing_state))) = [500]"
proof -
  let ?bd = "baseDomains demo_env [''http://a/'']"
  let ?s = "demo_seed\<lparr>queue := []\<rparr>"
  have r: "0 < rateLimit demo_req" by (simp add: demo_req_def)
  have p: "process_link demo_env demo_req ?bd demo_item demo_link ?s = (None, demo_after_link)"
    by (simp add: demo_process_link demo_after_link_def)
  have n: "results failing_state \<noteq> []" by (simp add: failing_state_def)
  have w: "now (world ?s) = 0" "sent (world ?s) = []"
    by (simp_all add: demo_seed_def seed_state_def demo_env_def w0_def)
  have f: "now (world failing_state) = 0" "sent (world failing_state) = []"
    by (simp_all add: failing_state_def w0_def)
  have t: "sent (world (snd (try_body demo_env demo_req {|''a''|} failing_item failing_state)))
      = [500]"
    by (simp add: try_body_def pre_fetch_def failing_state_def failing_item_def demo_env_def
        demo_req_def delayMs_def issue_def w0_def Let_def)
  from fixed_pauses [OF demo_clock_like r, of ?bd demo_item demo_link ?s demo_after_link] p w
  have a: "sent (world demo_after_link) = sent (world ?s) @ [0]
      \<and> now (world demo_after_link) = 250"
    by (simp add: demo_req_def)
  from fixed_pauses [OF demo_clock_like r, of "{|''a''|}" failing_item demo_link failing_state] n f
  have "\<exists>ts. sent (world (snd (try_body demo_env demo_req {|''a''|} failing_item failing_state)))
      = [500] @ ts"
    by (simp add: demo_req_def)
  with a demo_clock_like r p n t show ?thesis by simp
qed

text \<open>
  The crawl of the small site at two requests a second, an interval of 500 ms:
  the page fetch and its first link check are sent at the same time, and the
  two link checks of a page 250 ms apart.
\<close>

theorem requests_closer_than_interval:
  "delayMs demo_req = Some 500
   \<and> sent (world (crawl_loop demo_env demo_req (baseDomains demo_env [''http://a/''])
        (seed_state demo_env [''http://a/''] w0))) = [0, 0, 250, 1000, 1000, 1250, 2000]
   \<and> \<not> spaced 500 (sent (world (crawl_loop demo_env demo_req (baseDomains demo_env [''http://a/''])
        (seed_state demo_env [''http://a/''] w0))))"
proof -
  have s: "sent (world (crawl_loop demo_env demo_req (baseDomains demo_env [''http://a/''])
        (seed_state demo_env [''http://a/''] w0))) = [0, 0, 250, 1000, 1000, 1250, 2000]"
    by (simp add: crawl_loop.simps demo_defs)
  have d: "delayMs demo_req = Some 500" by (simp add: delayMs_def demo_req_def)
  from s d show ?thesis by simp
qed

end
